theory Spec2Isabelle
  imports Complex_Main "HOL-Library.Word"
begin

unbundle bit_operations_syntax

section \<open>Fatal checks\<close>

text \<open>
  Every \<^verbatim>\<open>CHECK\<close> macro of the sources aborts the process when its condition is false.
  An abort is the \<open>Inl\<close> branch of a sum; the constructor names the check that fired.
\<close>

datatype fatal =
    NoKeypointMeasurements      \<comment> \<open>CHECK(current\_frame\_ptr->hasKeypointMeasurements())\<close>
  | TimestampNotIncreasing      \<comment> \<open>CHECK\_GT(current timestamp, previous timestamp)\<close>
  | NoDescriptors               \<comment> \<open>CHECK(current\_frame.hasDescriptors())\<close>
  | DescriptorRowsMismatch      \<comment> \<open>CHECK\_EQ(descriptor rows, getDescriptorSizeBytes())\<close>
  | DescriptorColsMismatch      \<comment> \<open>CHECK\_EQ(keypoint cols, descriptor cols)\<close>
  | DescriptorTooWide           \<comment> \<open>CHECK\_LT(descriptorSizeBytes * 8, 512)\<close>
  | HammingOutOfRange           \<comment> \<open>CHECK\_LT(distance, descriptorSizeBytes * 8)\<close>
  | MatchTooFar                 \<comment> \<open>CHECK\_LT((previous\_predicted - measurement).norm(), 2 * radius)\<close>
  | SearchRowOutOfRange         \<comment> \<open>the CHECKs on idxnearest and idxnear\<close>
  | CornerIndexOutOfRange       \<comment> \<open>CHECK\_LT(it->index, current\_num\_pts)\<close>
  | MatchIndexOutOfRange        \<comment> \<open>CHECK\_LT on the two indices of a match\<close>
  | BinIndexNegative            \<comment> \<open>CHECK\_GE(bin\_index, 0)\<close>
  | BinIndexTooLarge            \<comment> \<open>CHECK\_LT(bin\_index, buckets.size())\<close>
  | NewTrackHasPreviousId       \<comment> \<open>CHECK\_EQ(previous\_track\_id, -1)\<close>
  | SizeMismatch                \<comment> \<open>CHECK\_EQ on the argument sizes of the triangulators\<close>
  | CameraIndexOutOfRange       \<comment> \<open>CHECK\_LT(cam\_index, T\_B\_C.size())\<close>

section \<open>Bit distance kernel\<close>

type_synonym byte = "8 word"

text \<open>
  The inner loop of \<^verbatim>\<open>hammingDistance512\<close>:
  \<^verbatim>\<open>while(val) { ++distance; val &= val - 1; }\<close>
  on an \<^verbatim>\<open>unsigned char\<close>. It ends because the value strictly decreases.
\<close>

function popcount_loop :: "byte \<Rightarrow> nat \<Rightarrow> nat" where
  "popcount_loop val distance =
     (if val \<noteq> 0 then popcount_loop (val AND (val - 1)) (distance + 1) else distance)"
  by pat_completeness auto
termination
proof (relation "measure (\<lambda>(val, distance). unat val)")
  show "wf (measure (\<lambda>(val, distance). unat val))" by simp
next
  fix val :: byte and distance :: nat
  assume nz: "val \<noteq> 0"
  have "val AND (val - 1) \<le> val - 1" by (rule word_and_le1)
  moreover have "val - 1 < val"
    using measure_unat[OF nz] by (simp add: word_less_nat_alt)
  ultimately have "val AND (val - 1) < val" by simp
  then show "((val AND (val - 1), distance + 1), (val, distance))
               \<in> measure (\<lambda>(val, distance). unat val)"
    by (simp add: word_less_nat_alt)
qed

declare popcount_loop.simps [simp del]

text \<open>
  The outer loop \<^verbatim>\<open>for (i = 0; i < descriptorSizeBytes; i++)\<close> reads byte \<open>i\<close> of both
  descriptors; the counter \<open>distance\<close> is carried through. The descriptor size is at most
  63 once \<^verbatim>\<open>CHECK_LT(descriptorSizeBytes * 8, 512)\<close> has passed, so the 32-bit counter
  never wraps and is modelled as a natural number.
\<close>

definition hamming_bytes :: "nat \<Rightarrow> byte list \<Rightarrow> byte list \<Rightarrow> nat" where
  "hamming_bytes descriptorSizeBytes x y =
     fold (\<lambda>i distance. popcount_loop ((x ! i) XOR (y ! i)) distance)
          [0..<descriptorSizeBytes] 0"

definition hammingDistance512 :: "nat \<Rightarrow> byte list \<Rightarrow> byte list \<Rightarrow> fatal + nat" where
  "hammingDistance512 descriptorSizeBytes x y =
     (let distance = hamming_bytes descriptorSizeBytes x y
      in if distance < descriptorSizeBytes * 8 then Inr distance else Inl HammingOutOfRange)"

text \<open>The reference notion: the number of one bits of a byte, and of a row of bytes.\<close>

definition popcount :: "byte \<Rightarrow> nat" where
  "popcount w = length (filter (bit w) [0..<8])"

definition popcount_sum :: "nat \<Rightarrow> byte list \<Rightarrow> byte list \<Rightarrow> nat" where
  "popcount_sum d a b = (\<Sum>i\<leftarrow>[0..<d]. popcount ((a ! i) XOR (b ! i)))"

text \<open>
  An auxiliary count of the one bits of a natural number, by halving; the proofs relate the
  loop to \<open>popcount\<close> through it.
\<close>

fun bits_set :: "nat \<Rightarrow> nat" where
  "bits_set n = (if n = 0 then 0 else n mod 2 + bits_set (n div 2))"

declare bits_set.simps [simp del]

section \<open>Geometry and the camera interface\<close>

text \<open>
  \<^verbatim>\<open>Eigen::Vector2d\<close>, \<^verbatim>\<open>Eigen::Vector3d\<close> and \<^verbatim>\<open>Eigen::Matrix3d\<close>. Coordinates are
  \<^verbatim>\<open>double\<close> in the source; the model computes with exact rationals, so rounding, infinities
  and NaN are outside it.
\<close>

type_synonym pixel = "rat \<times> rat"
type_synonym vec3 = "rat \<times> rat \<times> rat"
type_synonym mat3 = "vec3 \<times> vec3 \<times> vec3"

definition dot3 :: "vec3 \<Rightarrow> vec3 \<Rightarrow> rat" where
  "dot3 a b = (case a of (a0, a1, a2) \<Rightarrow> case b of (b0, b1, b2) \<Rightarrow> a0 * b0 + a1 * b1 + a2 * b2)"

definition mat_vec :: "mat3 \<Rightarrow> vec3 \<Rightarrow> vec3" where
  "mat_vec m v = (case m of (r0, r1, r2) \<Rightarrow> (dot3 r0 v, dot3 r1 v, dot3 r2 v))"

definition identity3 :: mat3 where
  "identity3 = ((1, 0, 0), (0, 1, 0), (0, 0, 1))"

text \<open>
  The camera (\<^verbatim>\<open>aslam/cameras/camera.h\<close>) is not part of the sources; the tracker uses its
  image size and its two projection functions, which are parameters here. Both functions
  write their result through a pointer and return a status; the Boolean is that status
  (\<open>True\<close> for success) and the second component is what was written.
\<close>

record Camera =
  imageWidth :: nat
  imageHeight :: nat
  backProject3 :: "pixel \<Rightarrow> bool \<times> vec3"
  project3 :: "vec3 \<Rightarrow> bool \<times> pixel"

section \<open>Frames, configuration and tracker state\<close>

text \<open>
  The channels of a \<^verbatim>\<open>VisualFrame\<close> that the tracker reads and writes. Matrices are lists
  of columns: one keypoint, one descriptor per column. \<open>descriptorRows\<close> is
  \<^verbatim>\<open>getDescriptors().rows()\<close>.
\<close>

record VisualFrame =
  hardwareTimestamp :: int
  hasKeypointMeasurements :: bool
  keypointMeasurements :: "pixel list"
  hasDescriptors :: bool
  descriptorRows :: nat
  descriptors :: "byte list list"
  descriptorSizeBytes :: nat
  keypointScores :: "rat list"
  trackIds :: "int list"

text \<open>
  The tuning constants are declared in \<^verbatim>\<open>feature-tracker-gyro.h\<close>, which is not part of the
  sources; they are parameters of the model.
\<close>

record Config =
  kNumberOfTrackingBuckets :: nat
  kNumberOfKeyPointsUseUnconditional :: nat
  kNumberOfKeyPointsUseStrong :: nat
  kKeypointScoreThresholdUnconditional :: rat
  kKeypointScoreThresholdStrong :: rat

text \<open>
  The members of \<^verbatim>\<open>GyroTracker\<close>. The member \<^verbatim>\<open>current_track_lengths_\<close> is scratch
  storage: \<^verbatim>\<open>addFrame\<close> clears it before its first use and swaps it into
  \<^verbatim>\<open>previous_track_lengths_\<close> at the end, so no call reads what an earlier call left in
  it. The model keeps it as a value local to the call.
\<close>

record GyroTracker =
  camera :: Camera
  previous_frame_ptr :: "VisualFrame option"   \<comment> \<open>\<^verbatim>\<open>previous_frame_ptr_\<close>; \<open>None\<close> is \<^verbatim>\<open>nullptr\<close>\<close>
  previous_track_lengths :: "nat list"
  current_track_id :: int

definition GyroTracker_new :: "Camera \<Rightarrow> int \<Rightarrow> GyroTracker" where
  \<comment> \<open>The constructor; the initial value of \<^verbatim>\<open>current_track_id_\<close> is set in the header.\<close>
  "GyroTracker_new input_camera first_id =
     \<lparr>camera = input_camera, previous_frame_ptr = None, previous_track_lengths = [],
      current_track_id = first_id\<rparr>"

section \<open>Bucket index\<close>

text \<open>
  The lambda \<^verbatim>\<open>compute_bin_index\<close> of \<^verbatim>\<open>addFrame\<close>. It captured \<^verbatim>\<open>buckets\<close> after the
  resize, so \<^verbatim>\<open>buckets.size()\<close> is the square of the grid size.
\<close>

definition bin_index_of :: "Config \<Rightarrow> Camera \<Rightarrow> pixel \<Rightarrow> int" where
  "bin_index_of cfg cam kp =
     (let bucket_width_x = rat_of_nat (imageWidth cam) / rat_of_nat (kNumberOfTrackingBuckets cfg);
          bucket_width_y = rat_of_nat (imageHeight cam) / rat_of_nat (kNumberOfTrackingBuckets cfg);
          bin_x = fst kp / bucket_width_x;
          bin_y = snd kp / bucket_width_y
      in \<lfloor>bin_y\<rfloor> * int (kNumberOfTrackingBuckets cfg) + \<lfloor>bin_x\<rfloor>)"

definition compute_bin_index :: "Config \<Rightarrow> Camera \<Rightarrow> pixel \<Rightarrow> fatal + nat" where
  "compute_bin_index cfg cam kp =
     (let bin_index = bin_index_of cfg cam kp
      in if \<not> bin_index \<ge> 0 then Inl BinIndexNegative
         else if \<not> bin_index < int (kNumberOfTrackingBuckets cfg * kNumberOfTrackingBuckets cfg)
         then Inl BinIndexTooLarge
         else Inr (nat bin_index))"

section \<open>Match search\<close>

record KeypointAndIndex =
  measurement :: pixel
  index :: nat

definition keypoints_by_y :: "pixel list \<Rightarrow> KeypointAndIndex list" where
  \<comment> \<open>The copy of the current keypoints with their indices, sorted by the y coordinate.
      \<^verbatim>\<open>std::sort\<close> leaves the order of equal rows open; the model keeps their index order.\<close>
  "keypoints_by_y kps =
     sort_key (\<lambda>k. snd (measurement k))
       (map (\<lambda>i. \<lparr>measurement = kps ! i, index = i\<rparr>) [0..<length kps])"

text \<open>
  \<^verbatim>\<open>while (v < current_num_pts && y > current_keypoints_by_y[v].measurement(1)) ++v;\<close>
\<close>

function lut_advance :: "KeypointAndIndex list \<Rightarrow> nat \<Rightarrow> nat \<Rightarrow> nat" where
  "lut_advance by_y y v =
     (if v < length by_y \<and> rat_of_nat y > snd (measurement (by_y ! v))
      then lut_advance by_y y (v + 1) else v)"
  by pat_completeness auto
termination
  by (relation "measure (\<lambda>(by_y, y, v). length by_y - v)") auto

declare lut_advance.simps [simp del]

text \<open>The loop over the rows \<open>y = 0, ..., image_height - 1\<close>; the cursor \<open>v\<close> is carried along.\<close>

fun build_LUT :: "KeypointAndIndex list \<Rightarrow> nat list \<Rightarrow> nat \<Rightarrow> nat list" where
  "build_LUT by_y [] v = []"
| "build_LUT by_y (y # ys) v = (let v' = lut_advance by_y y v in v' # build_LUT by_y ys v')"

definition corner_row_LUT :: "KeypointAndIndex list \<Rightarrow> nat \<Rightarrow> nat list" where
  "corner_row_LUT by_y image_height = build_LUT by_y [0..<image_height] 0"

definition predict_keypoint :: "Camera \<Rightarrow> mat3 \<Rightarrow> pixel \<Rightarrow> pixel" where
  \<comment> \<open>Back-project, rotate, project. Neither status is looked at.\<close>
  "predict_keypoint cam C_current_prev previous_keypoint =
     (let previous_bearing = snd (backProject3 cam previous_keypoint);
          bearing_predicted = mat_vec C_current_prev previous_bearing
      in snd (project3 cam bearing_predicted))"

definition trunc :: "rat \<Rightarrow> int" where
  \<comment> \<open>The conversion of a \<^verbatim>\<open>double\<close> to \<^verbatim>\<open>int\<close>: towards zero.\<close>
  "trunc x = (if 0 \<le> x then \<lfloor>x\<rfloor> else \<lceil>x\<rceil>)"

definition clamp :: "int \<Rightarrow> int \<Rightarrow> int \<Rightarrow> int" where
  "clamp lower upper inp = min (max inp lower) upper"

definition min_search_radius :: int where "min_search_radius = 5"
definition search_radius :: int where "search_radius = 10"
definition kMatchingThresholdBits :: int where "kMatchingThresholdBits = 120"

text \<open>
  The rows of one search window: \<^verbatim>\<open>idx[0]\<close>, \<^verbatim>\<open>idx[1]\<close> and the checks on them, then the
  two entries of the table the iterators start and end at.
\<close>

definition row_bounds :: "nat \<Rightarrow> rat \<Rightarrow> int \<Rightarrow> fatal + (int \<times> int)" where
  "row_bounds image_height predicted_y radius =
     (let idx0 = clamp 0 (int image_height - 1) (trunc (predicted_y + 1 / 2 - rat_of_int radius));
          idx1 = clamp 0 (int image_height - 1) (trunc (predicted_y + 1 / 2 + rat_of_int radius))
      in if idx0 \<le> idx1 \<and> 0 \<le> idx0 \<and> 0 \<le> idx1
            \<and> idx0 < int image_height \<and> idx1 < int image_height
         then Inr (idx0, idx1) else Inl SearchRowOutOfRange)"

definition lut_range :: "nat list \<Rightarrow> int \<times> int \<Rightarrow> nat \<times> nat" where
  "lut_range lut idx =
     (let top = min (fst idx) (int (length lut) - 1);
          bottom = min (snd idx + 1) (int (length lut) - 1)
      in (lut ! nat top, lut ! nat bottom))"

definition corners_between :: "KeypointAndIndex list \<Rightarrow> nat \<times> nat \<Rightarrow> KeypointAndIndex list" where
  \<comment> \<open>The keypoints an iterator visits from \<^verbatim>\<open>begin() + b\<close> up to \<^verbatim>\<open>begin() + e\<close>.\<close>
  "corners_between by_y r = take (snd r - fst r) (drop (fst r) by_y)"

record SearchState =
  found :: bool
  it_best :: "KeypointAndIndex option"
  best_score :: int
  processed_current_corners :: "bool list"
  n_processed_corners :: nat

definition norm_less :: "pixel \<Rightarrow> pixel \<Rightarrow> int \<Rightarrow> bool" where
  \<comment> \<open>\<^verbatim>\<open>(a - b).norm() < r\<close> for \<open>r > 0\<close>, without the square root.\<close>
  "norm_less a b r =
     ((fst a - fst b) * (fst a - fst b) + (snd a - snd b) * (snd a - snd b)
        < rat_of_int r * rat_of_int r)"

text \<open>
  One iteration of a search loop. \<open>skip_processed\<close> is \<open>True\<close> in the large window only,
  which passes over the corners the small window has compared. The vector
  \<^verbatim>\<open>processed_current_corners\<close> has \<^verbatim>\<open>current_num_pts\<close> entries, so its length stands for
  that number in \<^verbatim>\<open>CHECK_LT(it->index, current_num_pts)\<close>.
\<close>

definition search_step ::
  "nat \<Rightarrow> byte list \<Rightarrow> byte list list \<Rightarrow> pixel \<Rightarrow> bool \<Rightarrow> int \<Rightarrow> int \<Rightarrow> int
     \<Rightarrow> KeypointAndIndex \<Rightarrow> SearchState \<Rightarrow> fatal + SearchState" where
  "search_step dsize previous_descriptor current_descriptors previous_predicted
       skip_processed bound_left bound_right radius it st =
     (if skip_processed \<and> processed_current_corners st ! index it then Inr st
      else if fst (measurement it) < rat_of_int bound_left
                \<or> fst (measurement it) > rat_of_int bound_right then Inr st
      else if \<not> index it < length (processed_current_corners st) then Inl CornerIndexOutOfRange
      else case hammingDistance512 dsize previous_descriptor (current_descriptors ! index it) of
             Inl e \<Rightarrow> Inl e
           | Inr distance \<Rightarrow>
               (let current_score = 512 - int distance;
                    better = (current_score > best_score st)
                in if better \<and> \<not> norm_less previous_predicted (measurement it) (radius * 2)
                   then Inl MatchTooFar
                   else Inr (st\<lparr>found := (found st \<or> better),
                                it_best := (if better then Some it else it_best st),
                                best_score := (if better then current_score else best_score st),
                                processed_current_corners :=
                                  (processed_current_corners st)[index it := True],
                                n_processed_corners := n_processed_corners st + 1\<rparr>)))"

fun search_window ::
  "nat \<Rightarrow> byte list \<Rightarrow> byte list list \<Rightarrow> pixel \<Rightarrow> bool \<Rightarrow> int \<Rightarrow> int \<Rightarrow> int
     \<Rightarrow> KeypointAndIndex list \<Rightarrow> SearchState \<Rightarrow> fatal + SearchState" where
  "search_window dsize pd cds pp skip bl br radius [] st = Inr st"
| "search_window dsize pd cds pp skip bl br radius (it # its) st =
     (case search_step dsize pd cds pp skip bl br radius it st of
        Inl e \<Rightarrow> Inl e
      | Inr st' \<Rightarrow> search_window dsize pd cds pp skip bl br radius its st')"

text \<open>
  The body of the loop over the previous keypoints: the index of the current keypoint
  matched to keypoint \<open>i\<close>, if any, and the counter \<^verbatim>\<open>n_processed_corners\<close> of the
  descriptors compared on the way.
\<close>

definition match_one ::
  "nat \<Rightarrow> nat \<Rightarrow> KeypointAndIndex list \<Rightarrow> nat list \<Rightarrow> byte list list
     \<Rightarrow> pixel \<Rightarrow> byte list \<Rightarrow> fatal + (nat option \<times> nat)" where
  "match_one image_height dsize by_y lut current_descriptors previous_predicted previous_descriptor =
     (let bound_left_nearest = trunc (fst previous_predicted - rat_of_int min_search_radius);
          bound_right_nearest = trunc (fst previous_predicted + rat_of_int min_search_radius);
          bound_left_near = trunc (fst previous_predicted - rat_of_int search_radius);
          bound_right_near = trunc (fst previous_predicted + rat_of_int search_radius)
      in case row_bounds image_height (snd previous_predicted) min_search_radius of
           Inl e \<Rightarrow> Inl e
         | Inr idxnearest \<Rightarrow>
       (case row_bounds image_height (snd previous_predicted) search_radius of
           Inl e \<Rightarrow> Inl e
         | Inr idxnear \<Rightarrow>
       (let nearest_corners = corners_between by_y (lut_range lut idxnearest);
            near_corners = corners_between by_y (lut_range lut idxnear);
            st0 = \<lparr>found = False, it_best = None,
                   best_score = 512 - kMatchingThresholdBits,
                   processed_current_corners = replicate (length by_y) False,
                   n_processed_corners = 0\<rparr>
        in case search_window dsize previous_descriptor current_descriptors previous_predicted
                  False bound_left_nearest bound_right_nearest min_search_radius
                  nearest_corners st0 of
             Inl e \<Rightarrow> Inl e
           | Inr st1 \<Rightarrow>
         (case (if \<not> found st1
                then search_window dsize previous_descriptor current_descriptors
                       previous_predicted True bound_left_near bound_right_near search_radius
                       near_corners st1
                else Inr st1) of
             Inl e \<Rightarrow> Inl e
           | Inr st2 \<Rightarrow> Inr (if found st2 then map_option index (it_best st2) else None,
                             n_processed_corners st2)))))"

fun match_loop ::
  "nat \<Rightarrow> nat \<Rightarrow> KeypointAndIndex list \<Rightarrow> nat list \<Rightarrow> byte list list
     \<Rightarrow> pixel list \<Rightarrow> byte list list \<Rightarrow> nat list \<Rightarrow> fatal + (nat \<times> nat) list" where
  "match_loop image_height dsize by_y lut cds predicted pds [] = Inr []"
| "match_loop image_height dsize by_y lut cds predicted pds (i # is) =
     (case match_one image_height dsize by_y lut cds (predicted ! i) (pds ! i) of
        Inl e \<Rightarrow> Inl e
      | Inr r \<Rightarrow>
          (case match_loop image_height dsize by_y lut cds predicted pds is of
             Inl e \<Rightarrow> Inl e
           | Inr ms \<Rightarrow> Inr ((case fst r of None \<Rightarrow> [] | Some j \<Rightarrow> [(i, j)]) @ ms)))"

definition matchFeatures ::
  "Camera \<Rightarrow> mat3 \<Rightarrow> VisualFrame \<Rightarrow> VisualFrame \<Rightarrow> fatal + (nat \<times> nat) list" where
  "matchFeatures cam C_current_prev current_frame previous_frame =
     (let by_y = keypoints_by_y (keypointMeasurements current_frame);
          lut = corner_row_LUT by_y (imageHeight cam);
          prev_num_pts = length (keypointMeasurements previous_frame);
          C2_previous_image_points =
            map (predict_keypoint cam C_current_prev) (keypointMeasurements previous_frame);
          dsize = descriptorSizeBytes current_frame
      in if \<not> dsize * 8 < 512 then Inl DescriptorTooWide
         else match_loop (imageHeight cam) dsize by_y lut (descriptors current_frame)
                C2_previous_image_points (descriptors previous_frame) [0..<prev_num_pts])"

section \<open>Admission and the track-id ledger\<close>

type_synonym buckets = "int list list"

record AdmissionState =
  adm_track_ids :: "int list"                 \<comment> \<open>the local \<^verbatim>\<open>current_track_ids\<close>\<close>
  adm_track_lengths :: "nat list"             \<comment> \<open>\<^verbatim>\<open>current_track_lengths_\<close>\<close>
  adm_buckets :: buckets
  candidates_new_tracks :: "(nat \<times> nat) list"

definition push_bucket :: "buckets \<Rightarrow> nat \<Rightarrow> buckets" where
  \<comment> \<open>\<^verbatim>\<open>buckets[bin_index].push_back(0)\<close>\<close>
  "push_bucket bs bin_index = bs[bin_index := bs ! bin_index @ [0]]"

definition accept_match :: "AdmissionState \<Rightarrow> nat \<Rightarrow> nat \<times> nat \<Rightarrow> AdmissionState" where
  \<comment> \<open>\<^verbatim>\<open>buckets[bin_index].push_back(0); candidates_new_tracks.push_back(match);\<close>\<close>
  "accept_match st bin_index m =
     st\<lparr>adm_buckets := push_bucket (adm_buckets st) bin_index,
        candidates_new_tracks := candidates_new_tracks st @ [m]\<rparr>"

text \<open>The first loop of \<^verbatim>\<open>addFrame\<close> over the matches (source lines 88 to 106).\<close>

definition continue_step ::
  "Config \<Rightarrow> Camera \<Rightarrow> VisualFrame \<Rightarrow> VisualFrame \<Rightarrow> nat list
     \<Rightarrow> nat \<times> nat \<Rightarrow> AdmissionState \<Rightarrow> fatal + AdmissionState" where
  "continue_step cfg cam current_frame previous_frame prev_lengths m st =
     (if \<not> fst m < length (trackIds previous_frame) then Inl MatchIndexOutOfRange
      else if \<not> snd m < length (adm_track_ids st) then Inl MatchIndexOutOfRange
      else
        (let ids = (adm_track_ids st)[snd m := trackIds previous_frame ! fst m];
             lens = (adm_track_lengths st)[snd m := prev_lengths ! fst m + 1];
             st' = st\<lparr>adm_track_ids := ids, adm_track_lengths := lens\<rparr>
         in if ids ! snd m \<ge> 0
            then (case compute_bin_index cfg cam (keypointMeasurements current_frame ! snd m) of
                    Inl e \<Rightarrow> Inl e
                  | Inr bin_index \<Rightarrow> Inr (accept_match st' bin_index m))
            else Inr st'))"

fun continue_tracks ::
  "Config \<Rightarrow> Camera \<Rightarrow> VisualFrame \<Rightarrow> VisualFrame \<Rightarrow> nat list
     \<Rightarrow> (nat \<times> nat) list \<Rightarrow> AdmissionState \<Rightarrow> fatal + AdmissionState" where
  "continue_tracks cfg cam cur prev prev_lengths [] st = Inr st"
| "continue_tracks cfg cam cur prev prev_lengths (m # ms) st =
     (case continue_step cfg cam cur prev prev_lengths m st of
        Inl e \<Rightarrow> Inl e
      | Inr st' \<Rightarrow> continue_tracks cfg cam cur prev prev_lengths ms st')"

text \<open>
  The candidates for new tracks (source lines 110 to 126): the positions \<open>i\<close> of the matches
  whose current keypoint has a negative id, with that keypoint's score, sorted by score.
  \<^verbatim>\<open>std::sort\<close> leaves the order of equal scores open; the model keeps their match order.
  The source stores the score as \<^verbatim>\<open>float\<close>; the model keeps the exact value.
\<close>

definition new_track_candidates ::
  "VisualFrame \<Rightarrow> (nat \<times> nat) list \<Rightarrow> int list \<Rightarrow> (nat \<times> rat) list" where
  "new_track_candidates current_frame matches ids =
     sort_key snd
       (map (\<lambda>i. (i, keypointScores current_frame ! snd (matches ! i)))
            (filter (\<lambda>i. ids ! snd (matches ! i) < 0) [0..<length matches]))"

text \<open>One iteration of the unconditional loop (source lines 130 to 150).\<close>

definition unconditional_step ::
  "Config \<Rightarrow> Camera \<Rightarrow> VisualFrame \<Rightarrow> (nat \<times> nat) list
     \<Rightarrow> nat \<times> rat \<Rightarrow> AdmissionState \<Rightarrow> fatal + AdmissionState" where
  "unconditional_step cfg cam current_frame matches c st =
     (let match_idx = fst c;
          index_in_curr = snd (matches ! match_idx);
          keypoint = keypointMeasurements current_frame ! index_in_curr;
          keypoint_score = keypointScores current_frame ! index_in_curr
      in if keypoint_score < kKeypointScoreThresholdUnconditional cfg then Inr st
         else case compute_bin_index cfg cam keypoint of
                Inl e \<Rightarrow> Inl e
              | Inr bin_index \<Rightarrow> Inr (accept_match st bin_index (matches ! match_idx)))"

fun unconditional_loop ::
  "Config \<Rightarrow> Camera \<Rightarrow> VisualFrame \<Rightarrow> (nat \<times> nat) list
     \<Rightarrow> (nat \<times> rat) list \<Rightarrow> AdmissionState \<Rightarrow> fatal + AdmissionState" where
  "unconditional_loop cfg cam cur matches [] st = Inr st"
| "unconditional_loop cfg cam cur matches (c # cs) st =
     (case unconditional_step cfg cam cur matches c st of
        Inl e \<Rightarrow> Inl e
      | Inr st' \<Rightarrow> unconditional_loop cfg cam cur matches cs st')"

text \<open>
  One iteration of the strong loop (source lines 155 to 180).
  \<^verbatim>\<open>num_pts_per_bucket = kNumberOfKeyPointsUseStrong / buckets.size()\<close> is an integer division.
\<close>

definition num_pts_per_bucket :: "Config \<Rightarrow> nat" where
  "num_pts_per_bucket cfg =
     kNumberOfKeyPointsUseStrong cfg
       div (kNumberOfTrackingBuckets cfg * kNumberOfTrackingBuckets cfg)"

definition strong_step ::
  "Config \<Rightarrow> Camera \<Rightarrow> VisualFrame \<Rightarrow> (nat \<times> nat) list
     \<Rightarrow> nat \<times> rat \<Rightarrow> AdmissionState \<Rightarrow> fatal + AdmissionState" where
  "strong_step cfg cam current_frame matches c st =
     (let match_idx = fst c;
          index_in_curr = snd (matches ! match_idx);
          keypoint = keypointMeasurements current_frame ! index_in_curr;
          keypoint_score = keypointScores current_frame ! index_in_curr
      in if keypoint_score < kKeypointScoreThresholdStrong cfg then Inr st
         else case compute_bin_index cfg cam keypoint of
                Inl e \<Rightarrow> Inl e
              | Inr bin_index \<Rightarrow>
                  if length (adm_buckets st ! bin_index) < num_pts_per_bucket cfg
                  then Inr (accept_match st bin_index (matches ! match_idx))
                  else Inr st)"

fun strong_loop ::
  "Config \<Rightarrow> Camera \<Rightarrow> VisualFrame \<Rightarrow> (nat \<times> nat) list
     \<Rightarrow> (nat \<times> rat) list \<Rightarrow> AdmissionState \<Rightarrow> fatal + AdmissionState" where
  "strong_loop cfg cam cur matches [] st = Inr st"
| "strong_loop cfg cam cur matches (c # cs) st =
     (case strong_step cfg cam cur matches c st of
        Inl e \<Rightarrow> Inl e
      | Inr st' \<Rightarrow> strong_loop cfg cam cur matches cs st')"

text \<open>
  The two loops share the counter \<^verbatim>\<open>candidate_idx\<close>: the first visits the sorted positions
  below \<open>min N_unconditional size\<close>, the second goes on from there up to \<open>min N_strong size\<close>.
\<close>

definition unconditional_part :: "Config \<Rightarrow> (nat \<times> rat) list \<Rightarrow> (nat \<times> rat) list" where
  "unconditional_part cfg candidates =
     take (min (kNumberOfKeyPointsUseUnconditional cfg) (length candidates)) candidates"

definition strong_part :: "Config \<Rightarrow> (nat \<times> rat) list \<Rightarrow> (nat \<times> rat) list" where
  "strong_part cfg candidates =
     (let candidate_idx = min (kNumberOfKeyPointsUseUnconditional cfg) (length candidates)
      in take (min (kNumberOfKeyPointsUseStrong cfg) (length candidates) - candidate_idx)
              (drop candidate_idx candidates))"

text \<open>
  The last loop (source lines 187 to 204) writes the ids of the new tracks. It changes the
  previous frame's ids and the id counter while it can still abort, so an abort returns the
  state it has reached.
\<close>

record LedgerState =
  led_current_ids :: "int list"
  led_previous_ids :: "int list"
  led_track_id :: int
  led_track_lengths :: "nat list"

definition ledger_step :: "nat \<times> nat \<Rightarrow> LedgerState \<Rightarrow> fatal + LedgerState" where
  "ledger_step m st =
     (let index_current_frame = snd m
      in if led_current_ids st ! index_current_frame = -1
         then (let index_previous_frame = fst m
               in if \<not> index_previous_frame < length (led_previous_ids st)
                  then Inl MatchIndexOutOfRange
                  else if led_previous_ids st ! index_previous_frame \<noteq> -1
                  then Inl NewTrackHasPreviousId
                  else (let new_track_id = led_track_id st + 1
                        in Inr (st\<lparr>led_track_id := new_track_id,
                                   led_current_ids :=
                                     (led_current_ids st)[index_current_frame := new_track_id],
                                   led_previous_ids :=
                                     (led_previous_ids st)[index_previous_frame := new_track_id],
                                   led_track_lengths :=
                                     (led_track_lengths st)[index_current_frame := 2]\<rparr>)))
         else Inr st)"

fun assign_new_ids :: "(nat \<times> nat) list \<Rightarrow> LedgerState \<Rightarrow> (fatal \<times> LedgerState) + LedgerState" where
  "assign_new_ids [] st = Inr st"
| "assign_new_ids (m # ms) st =
     (case ledger_step m st of
        Inl e \<Rightarrow> Inl (e, st)
      | Inr st' \<Rightarrow> assign_new_ids ms st')"

section \<open>addFrame\<close>

text \<open>
  What a call of \<^verbatim>\<open>addFrame\<close> can change: the tracker, the frame passed in, and the frame the
  tracker held as the previous one (its id channel is written through
  \<^verbatim>\<open>getTrackIdsMutable\<close>). A call returns these three as it leaves them, also when it aborts.
  The two frames are different objects whenever a loop runs: the same frame twice fails the
  timestamp check first. The logging and the statistics collectors have no effect on the
  three and are left out.
\<close>

record World =
  world_tracker :: GyroTracker
  world_current :: VisualFrame
  world_previous :: "VisualFrame option"

definition resize_lengths :: "nat list \<Rightarrow> nat \<Rightarrow> nat list" where
  \<comment> \<open>\<^verbatim>\<open>std::vector::resize(n, 0)\<close>: keeps the first entries, pads with zeros.\<close>
  "resize_lengths v n = take n v @ replicate (n - length v) 0"

definition admission_start :: "Config \<Rightarrow> nat \<Rightarrow> AdmissionState" where
  \<comment> \<open>All keypoints untracked with length 0, the buckets empty (source lines 60 to 86).\<close>
  "admission_start cfg current_num_pts =
     \<lparr>adm_track_ids = replicate current_num_pts (-1),
      adm_track_lengths = replicate current_num_pts 0,
      adm_buckets = replicate (kNumberOfTrackingBuckets cfg * kNumberOfTrackingBuckets cfg) [],
      candidates_new_tracks = []\<rparr>"

definition admission ::
  "Config \<Rightarrow> Camera \<Rightarrow> VisualFrame \<Rightarrow> VisualFrame \<Rightarrow> nat list \<Rightarrow> (nat \<times> nat) list
     \<Rightarrow> fatal + AdmissionState" where
  "admission cfg cam current_frame previous_frame prev_lengths matches =
     (let st0 = admission_start cfg (length (keypointMeasurements current_frame))
      in case continue_tracks cfg cam current_frame previous_frame prev_lengths matches st0 of
           Inl e \<Rightarrow> Inl e
         | Inr st1 \<Rightarrow>
             (let candidates = new_track_candidates current_frame matches (adm_track_ids st1)
              in case unconditional_loop cfg cam current_frame matches
                        (unconditional_part cfg candidates) st1 of
                   Inl e \<Rightarrow> Inl e
                 | Inr st2 \<Rightarrow>
                     strong_loop cfg cam current_frame matches (strong_part cfg candidates) st2))"

definition initialize :: "GyroTracker \<Rightarrow> VisualFrame \<Rightarrow> World" where
  \<comment> \<open>The first frame, or a frame without keypoints (source lines 28 to 38).\<close>
  "initialize trk current_frame =
     (let num_keypoints = length (keypointMeasurements current_frame);
          cur' = current_frame\<lparr>trackIds := replicate num_keypoints (-1)\<rparr>
      in \<lparr>world_tracker = trk\<lparr>previous_track_lengths :=
                                resize_lengths (previous_track_lengths trk) num_keypoints,
                              previous_frame_ptr := Some cur'\<rparr>,
              world_current = cur', world_previous = previous_frame_ptr trk\<rparr>)"

definition track ::
  "Config \<Rightarrow> GyroTracker \<Rightarrow> VisualFrame \<Rightarrow> VisualFrame \<Rightarrow> mat3
     \<Rightarrow> (fatal \<times> World) + World" where
  \<comment> \<open>\<^verbatim>\<open>addFrame\<close> from source line 40 on: \<open>prev\<close> is the frame the tracker holds.\<close>
  "track cfg trk current_frame prev C_current_prev =
     (let w0 = \<lparr>world_tracker = trk, world_current = current_frame, world_previous = Some prev\<rparr>
      in if \<not> hardwareTimestamp current_frame > hardwareTimestamp prev
         then Inl (TimestampNotIncreasing, w0)
         else if \<not> hasDescriptors current_frame then Inl (NoDescriptors, w0)
         else if descriptorRows current_frame \<noteq> descriptorSizeBytes current_frame
         then Inl (DescriptorRowsMismatch, w0)
         else if length (keypointMeasurements current_frame) \<noteq> length (descriptors current_frame)
         then Inl (DescriptorColsMismatch, w0)
         else case matchFeatures (camera trk) C_current_prev current_frame prev of
                Inl e \<Rightarrow> Inl (e, w0)
              | Inr matches_prev_current \<Rightarrow>
         (case admission cfg (camera trk) current_frame prev (previous_track_lengths trk)
                 matches_prev_current of
            Inl e \<Rightarrow> Inl (e, w0)
          | Inr adm \<Rightarrow>
         (case assign_new_ids (candidates_new_tracks adm)
                 \<lparr>led_current_ids = adm_track_ids adm,
                  led_previous_ids = trackIds prev,
                  led_track_id = current_track_id trk,
                  led_track_lengths = adm_track_lengths adm\<rparr> of
            Inl (e, led) \<Rightarrow>
              (let prev' = prev\<lparr>trackIds := led_previous_ids led\<rparr>
               in Inl (e, \<lparr>world_tracker = trk\<lparr>current_track_id := led_track_id led,
                                            previous_frame_ptr := Some prev'\<rparr>,
                          world_current = current_frame, world_previous = Some prev'\<rparr>))
          | Inr led \<Rightarrow>
              (let cur' = current_frame\<lparr>trackIds := led_current_ids led\<rparr>;
                   prev' = prev\<lparr>trackIds := led_previous_ids led\<rparr>
               in Inr \<lparr>world_tracker = trk\<lparr>previous_track_lengths := led_track_lengths led,
                                        current_track_id := led_track_id led,
                                        previous_frame_ptr := Some cur'\<rparr>,
                       world_current = cur', world_previous = Some prev'\<rparr>))))"

definition addFrame :: "Config \<Rightarrow> GyroTracker \<Rightarrow> VisualFrame \<Rightarrow> mat3 \<Rightarrow> (fatal \<times> World) + World" where
  "addFrame cfg trk current_frame C_current_prev =
     (if \<not> hasKeypointMeasurements current_frame
      then Inl (NoKeypointMeasurements,
                \<lparr>world_tracker = trk, world_current = current_frame, world_previous = previous_frame_ptr trk\<rparr>)
      else case previous_frame_ptr trk of
             None \<Rightarrow> Inr (initialize trk current_frame)
           | Some prev \<Rightarrow>
               if length (keypointMeasurements current_frame) = 0
               then Inr (initialize trk current_frame)
               else track cfg trk current_frame prev C_current_prev)"

section \<open>Linear triangulation\<close>

datatype Status = SUCCESSFUL | TOO_FEW_MEASUREMENTS | UNOBSERVABLE | UNINITIALIZED













section \<open>Concrete inputs\<close>

text \<open>
  The inputs at which the theorems below are instantiated: a pinhole camera with unit focal
  length and a 64 by 32 image, a configuration with a 4 by 4 grid, and frames whose
  descriptors have two bytes.
\<close>

definition example_camera :: Camera where
  "example_camera =
     \<lparr>imageWidth = 64, imageHeight = 32,
      backProject3 = (\<lambda>p. (True, (fst p, snd p, 1))),
      project3 = (\<lambda>v. case v of (x, y, z) \<Rightarrow> (0 < z, (x / z, y / z)))\<rparr>"

definition example_config :: Config where
  "example_config =
     \<lparr>kNumberOfTrackingBuckets = 4, kNumberOfKeyPointsUseUnconditional = 100,
      kNumberOfKeyPointsUseStrong = 1000, kKeypointScoreThresholdUnconditional = 0,
      kKeypointScoreThresholdStrong = 0\<rparr>"

definition example_frame :: "int \<Rightarrow> pixel list \<Rightarrow> byte list list \<Rightarrow> rat list \<Rightarrow> VisualFrame" where
  "example_frame t kps ds scores =
     \<lparr>hardwareTimestamp = t, hasKeypointMeasurements = True, keypointMeasurements = kps,
      hasDescriptors = True, descriptorRows = 2, descriptors = ds, descriptorSizeBytes = 2,
      keypointScores = scores, trackIds = replicate (length kps) (-1)\<rparr>"

text \<open>Feeding a list of frames to a new tracker, all with the identity rotation.\<close>

fun run_frames :: "Config \<Rightarrow> GyroTracker \<Rightarrow> VisualFrame list \<Rightarrow> (fatal \<times> World) + GyroTracker" where
  "run_frames cfg trk [] = Inr trk"
| "run_frames cfg trk (f # fs) =
     (case addFrame cfg trk f identity3 of
        Inl e \<Rightarrow> Inl e
      | Inr w \<Rightarrow> run_frames cfg (world_tracker w) fs)"



text \<open>
  A half turn about the y axis, which puts every bearing behind the camera, and the
  example camera with a projection that reports failure for every bearing while writing the
  same pixel.
\<close>

definition half_turn :: mat3 where
  "half_turn = ((-1, 0, 0), (0, 1, 0), (0, 0, -1))"

definition failing_camera :: Camera where
  "failing_camera = example_camera\<lparr>project3 := (\<lambda>v. (False, snd (project3 example_camera v)))\<rparr>"





definition started_tracker :: GyroTracker where
  "started_tracker =
     world_tracker (initialize (GyroTracker_new example_camera 0)
                      (example_frame 1 [(10, 10)] [[1, 2]] [5]))"

definition two_frame_tracker :: GyroTracker where
  "two_frame_tracker =
     world_tracker (projr (addFrame example_config started_tracker
        (example_frame 2 [(10, 10), (12, 11)] [[1, 2], [1, 3]] [5, 5]) identity3))"

section \<open>Reference notions\<close>

text \<open>
  Notions the results are stated with. They are not part of the program.
  \<open>rows_below by_y y\<close> is the number of leading keypoints whose y coordinate is below row
  \<open>y\<close>; in a list sorted by y these are all the keypoints above that row.
\<close>

definition rows_below :: "KeypointAndIndex list \<Rightarrow> nat \<Rightarrow> nat" where
  "rows_below by_y y = length (takeWhile (\<lambda>k. snd (measurement k) < rat_of_nat y) by_y)"

text \<open>
  The search window of radius \<open>r\<close> around a predicted pixel, as the row table and the
  column bounds of the search delimit it: the rows from the clamped top row up to, but not
  including, the row after the clamped bottom row, which is itself capped at the last row;
  the columns between the two bounds, which are truncated to integers.
\<close>

definition window_top :: "nat \<Rightarrow> rat \<Rightarrow> int \<Rightarrow> int" where
  "window_top h py r = clamp 0 (int h - 1) (trunc (py + 1 / 2 - rat_of_int r))"

definition window_bottom :: "nat \<Rightarrow> rat \<Rightarrow> int \<Rightarrow> int" where
  "window_bottom h py r =
     min (clamp 0 (int h - 1) (trunc (py + 1 / 2 + rat_of_int r)) + 1) (int h - 1)"

definition in_window :: "nat \<Rightarrow> pixel \<Rightarrow> int \<Rightarrow> pixel \<Rightarrow> bool" where
  "in_window h pp r q \<longleftrightarrow>
     rat_of_int (window_top h (snd pp) r) \<le> snd q
     \<and> snd q < rat_of_int (window_bottom h (snd pp) r)
     \<and> rat_of_int (trunc (fst pp - rat_of_int r)) \<le> fst q
     \<and> fst q \<le> rat_of_int (trunc (fst pp + rat_of_int r))"

definition window :: "nat \<Rightarrow> pixel \<Rightarrow> int \<Rightarrow> KeypointAndIndex list \<Rightarrow> KeypointAndIndex list" where
  \<comment> \<open>The keypoints of a window, in the order of the sorted list.\<close>
  "window h pp r by_y = filter (\<lambda>k. in_window h pp r (measurement k)) by_y"

definition descriptor_distance ::
  "nat \<Rightarrow> byte list \<Rightarrow> byte list list \<Rightarrow> KeypointAndIndex \<Rightarrow> nat" where
  \<comment> \<open>The number of bits in which the descriptor of a current keypoint differs.\<close>
  "descriptor_distance d pd cds k = popcount_sum d pd (cds ! index k)"

definition first_closest ::
  "(KeypointAndIndex \<Rightarrow> nat) \<Rightarrow> KeypointAndIndex list \<Rightarrow> KeypointAndIndex \<Rightarrow> bool" where
  \<comment> \<open>\<open>k\<close> has the least distance in \<open>W\<close>, and is the first of \<open>W\<close> that has it.\<close>
  "first_closest dst W k \<longleftrightarrow>
     (\<exists>pre post. W = pre @ k # post
        \<and> (\<forall>k' \<in> set pre. dst k < dst k') \<and> (\<forall>k' \<in> set post. dst k \<le> dst k'))"

text \<open>
  What a search loop leaves in \<open>found\<close>, \<open>it_best\<close> and \<open>best_score\<close> after comparing the
  keypoints of a list in turn, as a function of the scores.
\<close>

fun scan_best ::
  "(KeypointAndIndex \<Rightarrow> int) \<Rightarrow> KeypointAndIndex list
     \<Rightarrow> bool \<times> KeypointAndIndex option \<times> int \<Rightarrow> bool \<times> KeypointAndIndex option \<times> int" where
  "scan_best sc [] acc = acc"
| "scan_best sc (k # ks) (f, b, s) =
     (if sc k > s then scan_best sc ks (True, Some k, sc k) else scan_best sc ks (f, b, s))"

text \<open>
  The score of a current keypoint against a previous descriptor; the keypoints a search loop
  compares (those not skipped as processed and not outside the column bounds); and the
  state a loop reaches from a state after comparing a list of keypoints.
\<close>

definition score :: "nat \<Rightarrow> byte list \<Rightarrow> byte list list \<Rightarrow> KeypointAndIndex \<Rightarrow> int" where
  "score d pd cds k = 512 - int (descriptor_distance d pd cds k)"

definition compared :: "bool \<Rightarrow> int \<Rightarrow> int \<Rightarrow> SearchState \<Rightarrow> KeypointAndIndex \<Rightarrow> bool" where
  "compared skip bl br st k \<longleftrightarrow>
     \<not> (skip \<and> processed_current_corners st ! index k)
     \<and> \<not> (fst (measurement k) < rat_of_int bl \<or> fst (measurement k) > rat_of_int br)"

definition after_scan ::
  "(KeypointAndIndex \<Rightarrow> int) \<Rightarrow> KeypointAndIndex list \<Rightarrow> SearchState \<Rightarrow> SearchState" where
  "after_scan sc C st =
     (case scan_best sc C (found st, it_best st, best_score st) of
        (f, b, s) \<Rightarrow>
          st\<lparr>found := f, it_best := b, best_score := s,
             processed_current_corners :=
               fold (\<lambda>k p. p[index k := True]) C (processed_current_corners st),
             n_processed_corners := n_processed_corners st + length C\<rparr>)"

subsection \<open>The loop counts the one bits\<close>

lemma bits_set_0: "bits_set 0 = 0"
  by (simp add: bits_set.simps)

lemma bits_set_even: "0 < k \<Longrightarrow> bits_set (2 * k) = bits_set k"
  by (subst bits_set.simps) simp

lemma bits_set_odd: "bits_set (Suc (2 * k)) = Suc (bits_set k)"
  by (subst bits_set.simps) simp

lemma clear_lowest_nat: "0 < n \<Longrightarrow> Suc (bits_set (n AND (n - 1))) = bits_set n"
proof (induction n rule: less_induct)
  case (less n)
  show ?case
  proof (cases "even n")
    case True
    then obtain k where k: "n = 2 * k" by (elim evenE)
    with less.prems have kpos: "0 < k" by simp
    have pred: "n - 1 = Suc (2 * (k - 1))" using k kpos by simp
    have a: "n AND (n - 1) = 2 * (k AND (k - 1))"
      unfolding pred unfolding k
      by (subst and_nat_rec) simp
    have "k < n" using k kpos by simp
    then have ih: "Suc (bits_set (k AND (k - 1))) = bits_set k"
      using less.IH[of k] kpos by simp
    show ?thesis
    proof (cases "k AND (k - 1) = 0")
      case True
      then show ?thesis using ih a k kpos by (simp add: bits_set_0 bits_set_even)
    next
      case False
      then show ?thesis using ih a k kpos by (simp add: bits_set_even)
    qed
  next
    case False
    then obtain k where k: "n = Suc (2 * k)" by (elim oddE) simp
    have a: "n AND (n - 1) = 2 * k"
      unfolding k by (subst and_nat_rec) simp
    show ?thesis
    proof (cases "k = 0")
      case True
      then show ?thesis using a k bits_set_odd[of 0] by (simp add: bits_set_0)
    next
      case False
      then show ?thesis using a k by (simp add: bits_set_even bits_set_odd)
    qed
  qed
qed

lemma bits_set_filter: "n < 2 ^ k \<Longrightarrow> bits_set n = length (filter (bit n) [0..<k])"
proof (induction k arbitrary: n)
  case 0
  then show ?case by (simp add: bits_set_0)
next
  case (Suc k)
  have half: "n div 2 < 2 ^ k" using Suc.prems by auto
  have l: "[0..<Suc k] = 0 # map Suc [0..<k]"
    by (simp add: upt_conv_Cons map_Suc_upt del: upt_Suc)
  have f: "filter (bit n) (map Suc [0..<k]) = map Suc (filter (bit (n div 2)) [0..<k])"
    by (simp add: filter_map comp_def bit_Suc)
  show ?case
  proof (cases "n = 0")
    case True
    then show ?thesis by (simp add: bits_set_0)
  next
    case False
    then have "bits_set n = n mod 2 + bits_set (n div 2)" by (subst bits_set.simps) simp
    also have "\<dots> = n mod 2 + length (filter (bit (n div 2)) [0..<k])"
      using Suc.IH[OF half] by simp
    also have "\<dots> = length (filter (bit n) [0..<Suc k])"
      unfolding l by (simp add: f bit_0 mod_2_eq_odd del: upt_Suc)
    finally show ?thesis .
  qed
qed

lemma popcount_bits_set: "popcount w = bits_set (unat w)"
proof -
  have "unat w < 2 ^ 8" using unsigned_less[of w] by simp
  then have "bits_set (unat w) = length (filter (bit (unat w)) [0..<8])"
    by (rule bits_set_filter)
  also have "filter (bit (unat w)) [0..<8] = filter (bit w) [0..<8]"
    by (rule filter_cong) (auto simp: bit_unsigned_iff)
  finally show ?thesis by (simp add: popcount_def)
qed

lemma popcount_clear_lowest:
  assumes "w \<noteq> 0" shows "Suc (popcount (w AND (w - 1))) = popcount w"
proof -
  have pos: "0 < unat w" using assms by (simp add: unat_gt_0)
  have "unat (w AND (w - 1)) = unat w AND (unat w - 1)"
    using assms by (simp add: unsigned_and_eq unat_minus_one)
  then show ?thesis using clear_lowest_nat[OF pos] by (simp add: popcount_bits_set)
qed

lemma popcount_zero: "popcount 0 = 0"
  by (simp add: popcount_def)

lemma popcount_loop_eq: "popcount_loop val distance = distance + popcount val"
proof (induction val distance rule: popcount_loop.induct)
  case (1 val distance)
  show ?case
  proof (cases "val = 0")
    case True
    then show ?thesis by (subst popcount_loop.simps) (simp add: popcount_zero)
  next
    case False
    then have "popcount_loop val distance = popcount_loop (val AND (val - 1)) (distance + 1)"
      by (subst popcount_loop.simps) simp
    also have "\<dots> = distance + 1 + popcount (val AND (val - 1))"
      using "1.IH"[OF False] .
    also have "\<dots> = distance + popcount val"
      using popcount_clear_lowest[OF False] by simp
    finally show ?thesis .
  qed
qed

lemma fold_popcount: 
  "fold (\<lambda>i distance. popcount_loop ((x ! i) XOR (y ! i)) distance) is d0
     = d0 + (\<Sum>i\<leftarrow>is. popcount ((x ! i) XOR (y ! i)))"
  by (induction "is" arbitrary: d0) (simp_all add: popcount_loop_eq)

lemma hamming_bytes_eq: "hamming_bytes d x y = popcount_sum d x y"
  by (simp add: hamming_bytes_def popcount_sum_def fold_popcount)

subsection \<open>What the kernel returns\<close>

lemma hammingDistance512_result:
  "hammingDistance512 d x y =
     (if popcount_sum d x y < d * 8 then Inr (popcount_sum d x y) else Inl HammingOutOfRange)"
  by (simp add: hammingDistance512_def hamming_bytes_eq)

lemma popcount_le_8: "popcount w \<le> 8"
proof -
  have "length (filter (bit w) [0..<8]) \<le> length [0..<8::nat]" by (rule length_filter_le)
  then show ?thesis by (simp add: popcount_def)
qed

lemma popcount_sum_le: "popcount_sum d x y \<le> d * 8"
proof -
  have "popcount_sum d x y \<le> (\<Sum>i\<leftarrow>[0..<d]. 8)"
    unfolding popcount_sum_def by (rule sum_list_mono) (simp add: popcount_le_8)
  then show ?thesis by (simp add: sum_list_triv)
qed

lemma popcount_sum_self: "popcount_sum d x x = 0"
  by (simp add: popcount_sum_def popcount_zero)

lemma popcount_sum_sym: "popcount_sum d x y = popcount_sum d y x"
  by (simp add: popcount_sum_def xor.commute)

lemma popcount_triangle: "popcount (a XOR c) \<le> popcount (a XOR b) + popcount (b XOR c)"
proof -
  have "length (filter (bit (a XOR c)) ns)
          \<le> length (filter (bit (a XOR b)) ns) + length (filter (bit (b XOR c)) ns)" for ns
    by (induction ns) (auto simp: bit_xor_iff)
  then show ?thesis by (simp add: popcount_def)
qed

lemma popcount_sum_triangle:
  "popcount_sum d x z \<le> popcount_sum d x y + popcount_sum d y z"
proof -
  have "(\<Sum>i\<leftarrow>ns. popcount ((x ! i) XOR (z ! i)))
          \<le> (\<Sum>i\<leftarrow>ns. popcount ((x ! i) XOR (y ! i)))
            + (\<Sum>i\<leftarrow>ns. popcount ((y ! i) XOR (z ! i)))" for ns
  proof (induction ns)
    case Nil
    then show ?case by simp
  next
    case (Cons n ns)
    then show ?case using popcount_triangle[of "x ! n" "z ! n" "y ! n"] by simp
  qed
  then show ?thesis by (simp add: popcount_sum_def)
qed

lemma popcount_complement: "popcount (w XOR NOT w) = 8"
proof -
  have "filter (bit (w XOR NOT w)) [0..<8] = [0..<8]"
    by (rule filter_True) (auto simp: bit_xor_iff bit_not_iff)
  then show ?thesis by (simp add: popcount_def)
qed

lemma popcount_sum_complement:
  assumes "length x = d"
  shows "popcount_sum d x (map NOT x) = d * 8"
proof -
  have "\<forall>i\<in>set ns. i < length x
          \<Longrightarrow> (\<Sum>i\<leftarrow>ns. popcount ((x ! i) XOR (map NOT x ! i))) = length ns * 8" for ns
  proof (induction ns)
    case Nil
    then show ?case by simp
  next
    case (Cons n ns)
    then have "popcount ((x ! n) XOR (map NOT x ! n)) = 8"
      by (simp only: nth_map list.set_intros popcount_complement)
    with Cons show ?case by simp
  qed
  from this[of "[0..<d]"] show ?thesis by (simp add: popcount_sum_def assms)
qed

text \<open>
  The kernel returns the sum of the bit counts exactly when that sum is below \<open>8 * D\<close>.
  On such results it is symmetric and obeys the triangle inequality, and a descriptor has
  distance 0 to itself when \<open>D > 0\<close>.
\<close>

lemma hammingDistance512_below:
  "popcount_sum d x y < d * 8 \<Longrightarrow> hammingDistance512 d x y = Inr (popcount_sum d x y)"
  by (simp add: hammingDistance512_result)

lemma hammingDistance512_self: "0 < d \<Longrightarrow> hammingDistance512 d x x = Inr 0"
  by (simp add: hammingDistance512_result popcount_sum_self)

lemma hammingDistance512_sym: "hammingDistance512 d x y = hammingDistance512 d y x"
  by (simp add: hammingDistance512_result popcount_sum_sym)

lemma hammingDistance512_triangle:
  assumes "hammingDistance512 d x y = Inr dxy" and "hammingDistance512 d y z = Inr dyz"
    and "hammingDistance512 d x z = Inr dxz"
  shows "dxz \<le> dxy + dyz"
  using assms popcount_sum_triangle[of d x z y]
  by (auto simp: hammingDistance512_result split: if_splits)

lemma hammingDistance512_complement:
  "length x = d \<Longrightarrow> hammingDistance512 d x (map NOT x) = Inl HammingOutOfRange"
  by (simp add: hammingDistance512_result popcount_sum_complement)

text \<open>
  Claim C9. The bit distance kernel is to return, for all descriptors of the configured
  width, the sum of the bit counts of the bytewise exclusive or, with distance \<open>8 * D\<close>
  between a descriptor and its complement, and it is to have no error condition. The loop
  does compute that sum (\<open>hamming_bytes_eq\<close>), but the kernel then checks that the distance is
  strictly below \<open>8 * D\<close>: for the one-byte descriptors \<open>0x00\<close> and \<open>0xFF\<close> the sum is 8 and
  the call aborts instead of returning 8.
\<close>

theorem hammingDistance512_complement_aborts:
  "popcount_sum 1 [0x00] [0xFF] = 8 * 1
   \<and> hammingDistance512 1 [0x00] [0xFF] = Inl HammingOutOfRange"
proof -
  have "(0xFF :: byte) = NOT 0" by simp
  then have "popcount_sum 1 [0x00] [0xFF] = popcount_sum 1 [0x00] (map NOT [0x00])"
    by (simp only: list.map)
  also have "\<dots> = 1 * 8" by (rule popcount_sum_complement) simp
  finally have s: "popcount_sum 1 [0x00] [0xFF] = 8 * 1" by simp
  have "hammingDistance512 1 [0x00] [0xFF] = Inl HammingOutOfRange"
    unfolding hammingDistance512_result s by simp
  with s show ?thesis by (rule conjI)
qed

section \<open>Bucket index: range\<close>









section \<open>Triangulation: the outcomes that are not a success\<close>








section \<open>The row lookup table\<close>

lemma takeWhile_length_mono:
  assumes "\<And>x. P x \<Longrightarrow> Q x"
  shows "length (takeWhile P xs) \<le> length (takeWhile Q xs)"
  using assms by (induction xs) auto

lemma rows_below_mono: "y \<le> y' \<Longrightarrow> rows_below by_y y \<le> rows_below by_y y'"
  unfolding rows_below_def
  by (rule takeWhile_length_mono) (simp add: order_less_le_trans)

lemma rows_below_le_length: "rows_below by_y y \<le> length by_y"
  by (simp add: rows_below_def length_takeWhile_le)

lemma lut_advance_eq:
  "v \<le> rows_below by_y y \<Longrightarrow> lut_advance by_y y v = rows_below by_y y"
proof (induction by_y y v rule: lut_advance.induct)
  case (1 by_y y v)
  let ?P = "\<lambda>k. snd (measurement k) < rat_of_nat y"
  let ?n = "length (takeWhile ?P by_y)"
  have le: "v \<le> ?n" using "1.prems" by (simp add: rows_below_def)
  show ?case
  proof (cases "v < length by_y \<and> rat_of_nat y > snd (measurement (by_y ! v))")
    case True
    have "v \<noteq> ?n"
    proof
      assume "v = ?n"
      with True have "?n < length by_y" by simp
      from nth_length_takeWhile[OF this] True \<open>v = ?n\<close> show False by simp
    qed
    with le have "v + 1 \<le> rows_below by_y y" by (simp add: rows_below_def)
    from "1.IH"[OF True this] True show ?thesis
      by (subst lut_advance.simps) simp
  next
    case False
    have "v = ?n"
    proof (rule ccontr)
      assume "v \<noteq> ?n"
      with le have lt: "v < ?n" by simp
      then have "takeWhile ?P by_y ! v = by_y ! v" by (rule takeWhile_nth)
      moreover have "takeWhile ?P by_y ! v \<in> set (takeWhile ?P by_y)" using lt by simp
      ultimately have "?P (by_y ! v)" using set_takeWhileD by metis
      moreover have "v < length by_y" using lt length_takeWhile_le[of ?P by_y] by simp
      ultimately show False using False by simp
    qed
    with False show ?thesis
      by (subst lut_advance.simps) (auto simp: rows_below_def)
  qed
qed

lemma build_LUT_eq:
  assumes "v \<le> rows_below by_y y0"
  shows "build_LUT by_y [y0..<y0 + n] v = map (rows_below by_y) [y0..<y0 + n]"
  using assms
proof (induction n arbitrary: y0 v)
  case 0
  then show ?case by simp
next
  case (Suc n)
  have l: "[y0..<y0 + Suc n] = y0 # [Suc y0..<Suc y0 + n]"
    by (simp add: upt_conv_Cons del: upt_Suc)
  have "rows_below by_y y0 \<le> rows_below by_y (Suc y0)" by (rule rows_below_mono) simp
  from Suc.IH[OF this] lut_advance_eq[OF Suc.prems]
  show ?case unfolding l by (simp add: Let_def del: upt_Suc)
qed

lemma corner_row_LUT_eq: "corner_row_LUT by_y h = map (rows_below by_y) [0..<h]"
  using build_LUT_eq[of 0 by_y 0 h] by (simp add: corner_row_LUT_def)

lemma length_corner_row_LUT: "length (corner_row_LUT by_y h) = h"
  by (simp add: corner_row_LUT_eq)

lemma corner_row_LUT_nth: "y < h \<Longrightarrow> corner_row_LUT by_y h ! y = rows_below by_y y"
  by (simp add: corner_row_LUT_eq)

text \<open>A stretch of the sorted keypoints between two table entries.\<close>

lemma takeWhile_dropWhile_range:
  assumes "\<And>x. P x \<Longrightarrow> Q x"
  shows "take (length (takeWhile Q xs) - length (takeWhile P xs)) (drop (length (takeWhile P xs)) xs)
           = takeWhile Q (dropWhile P xs)"
proof -
  have split: "takeWhile Q xs = takeWhile P xs @ takeWhile Q (dropWhile P xs)"
    using assms by (induction xs) auto
  have d: "drop (length (takeWhile P xs)) xs = dropWhile P xs"
    by (simp add: dropWhile_eq_drop)
  have "length (takeWhile Q xs) - length (takeWhile P xs) = length (takeWhile Q (dropWhile P xs))"
    by (subst split) simp
  then show ?thesis unfolding d by (simp add: takeWhile_eq_take[symmetric])
qed

lemma sorted_takeWhile_filter:
  fixes f :: "'a \<Rightarrow> rat"
  assumes "sorted (map f xs)"
  shows "takeWhile (\<lambda>x. f x < b) xs = filter (\<lambda>x. f x < b) xs"
  using assms
proof (induction xs)
  case Nil
  then show ?case by simp
next
  case (Cons x xs)
  show ?case
  proof (cases "f x < b")
    case True
    with Cons show ?thesis by simp
  next
    case False
    then have "\<forall>y\<in>set xs. \<not> f y < b" using Cons.prems by auto
    then have "filter (\<lambda>x. f x < b) xs = []" by (simp add: filter_empty_conv)
    with False show ?thesis by simp
  qed
qed

lemma sorted_dropWhile_filter:
  fixes f :: "'a \<Rightarrow> rat"
  assumes "sorted (map f xs)"
  shows "dropWhile (\<lambda>x. f x < a) xs = filter (\<lambda>x. a \<le> f x) xs"
  using assms
proof (induction xs)
  case Nil
  then show ?case by simp
next
  case (Cons x xs)
  show ?case
  proof (cases "f x < a")
    case True
    with Cons show ?thesis by simp
  next
    case False
    then have "\<forall>y\<in>set xs. a \<le> f y" using Cons.prems by auto
    then have "filter (\<lambda>x. a \<le> f x) xs = xs" by (simp add: filter_id_conv)
    with False show ?thesis by simp
  qed
qed

lemma sorted_dropWhile: 
  fixes f :: "'a \<Rightarrow> rat"
  shows "sorted (map f xs) \<Longrightarrow> sorted (map f (dropWhile P xs))"
  by (induction xs) auto

lemma corners_between_rows:
  assumes srt: "sorted (map (\<lambda>k. snd (measurement k)) by_y)" and ab: "a \<le> b"
  shows "corners_between by_y (rows_below by_y a, rows_below by_y b)
           = filter (\<lambda>k. rat_of_nat a \<le> snd (measurement k) \<and> snd (measurement k) < rat_of_nat b) by_y"
proof -
  let ?f = "\<lambda>k. snd (measurement k)"
  let ?P = "\<lambda>k. ?f k < rat_of_nat a" and ?Q = "\<lambda>k. ?f k < rat_of_nat b"
  have imp: "\<And>k. ?P k \<Longrightarrow> ?Q k" using ab by (simp add: order_less_le_trans)
  have "corners_between by_y (rows_below by_y a, rows_below by_y b)
          = takeWhile ?Q (dropWhile ?P by_y)"
    unfolding corners_between_def rows_below_def fst_conv snd_conv
    by (rule takeWhile_dropWhile_range) (rule imp)
  also have "\<dots> = filter ?Q (dropWhile ?P by_y)"
  proof -
    have "sorted (map ?f (dropWhile ?P by_y))" by (rule sorted_dropWhile[OF srt])
    from sorted_takeWhile_filter[OF this] show ?thesis .
  qed
  also have "\<dots> = filter ?Q (filter (\<lambda>k. rat_of_nat a \<le> ?f k) by_y)"
    using sorted_dropWhile_filter[OF srt, of "rat_of_nat a"] by simp
  also have "\<dots> = filter (\<lambda>k. rat_of_nat a \<le> ?f k \<and> ?f k < rat_of_nat b) by_y"
    by (simp add: conj_commute)
  finally show ?thesis .
qed

lemma sorted_keypoints_by_y: "sorted (map (\<lambda>k. snd (measurement k)) (keypoints_by_y kps))"
  by (simp add: keypoints_by_y_def)

lemma set_keypoints_by_y:
  "set (keypoints_by_y kps) = (\<lambda>i. \<lparr>measurement = kps ! i, index = i\<rparr>) ` {0..<length kps}"
  by (simp add: keypoints_by_y_def)

lemma length_keypoints_by_y: "length (keypoints_by_y kps) = length kps"
  by (simp add: keypoints_by_y_def)

lemma distinct_index_keypoints_by_y: "distinct (map index (keypoints_by_y kps))"
proof -
  let ?xs = "map (\<lambda>i. \<lparr>measurement = kps ! i, index = i\<rparr>) [0..<length kps]"
  have m: "map index ?xs = [0..<length kps]" by (simp add: map_idI comp_def)
  have "distinct (map index ?xs)" unfolding m by simp
  then have "distinct ?xs \<and> inj_on index (set ?xs)" by (simp only: distinct_map)
  then have "distinct (keypoints_by_y kps) \<and> inj_on index (set (keypoints_by_y kps))"
    unfolding keypoints_by_y_def by simp
  then show ?thesis by (simp only: distinct_map)
qed

lemma index_less_keypoints_by_y: "k \<in> set (keypoints_by_y kps) \<Longrightarrow> index k < length kps"
  by (auto simp: set_keypoints_by_y)

lemma measurement_keypoints_by_y:
  "k \<in> set (keypoints_by_y kps) \<Longrightarrow> measurement k = kps ! index k"
  by (auto simp: set_keypoints_by_y)

lemma lut_range_rows:
  assumes "0 \<le> a" and "a \<le> b" and "b < int h"
  shows "lut_range (corner_row_LUT by_y h) (a, b)
           = (rows_below by_y (nat a), rows_below by_y (nat (min (b + 1) (int h - 1))))"
  using assms
  by (simp add: lut_range_def Let_def length_corner_row_LUT corner_row_LUT_nth min_def)

lemma corners_between_window:
  assumes "0 \<le> a" and "a \<le> b" and "b < int h"
  shows "corners_between (keypoints_by_y kps)
           (lut_range (corner_row_LUT (keypoints_by_y kps) h) (a, b))
         = filter (\<lambda>k. rat_of_int a \<le> snd (measurement k)
                      \<and> snd (measurement k) < rat_of_int (min (b + 1) (int h - 1)))
             (keypoints_by_y kps)"
proof -
  let ?e = "min (b + 1) (int h - 1)"
  have le: "nat a \<le> nat ?e" using assms by simp
  have ra: "rat_of_nat (nat a) = rat_of_int a" using assms by simp
  have re: "rat_of_nat (nat ?e) = rat_of_int ?e"
  proof -
    have "0 \<le> ?e" using assms by simp
    then show ?thesis by (simp only: of_nat_nat)
  qed
  show ?thesis
    unfolding lut_range_rows[OF assms]
    using corners_between_rows[OF sorted_keypoints_by_y le, of kps]
    unfolding ra re .
qed

text \<open>
  Claim C6, as stated, fails twice. The query for row 0 returns the keypoint with
  y coordinate 1/2, which does not equal 0; and in an image of 4 rows the query for the
  last row, 3, returns nothing although a keypoint lies at y = 3.
\<close>

theorem row_query_not_equal_rows:
  "map index (corners_between (keypoints_by_y [(3, 1 / 2)])
       (lut_range (corner_row_LUT (keypoints_by_y [(3, 1 / 2)]) 4) (0, 0))) = [0]
   \<and> snd ([(3 :: rat, 1 / 2 :: rat)] ! 0) \<noteq> rat_of_nat 0
   \<and> corners_between (keypoints_by_y [(3, 3)])
       (lut_range (corner_row_LUT (keypoints_by_y [(3, 3)]) 4) (3, 3)) = []
   \<and> snd ([(3 :: rat, 3 :: rat)] ! 0) = rat_of_nat 3"
  by code_simp

text \<open>
  Claim C6, amended. For every integer row \<open>y\<close> with \<open>y + 1 \<le> H - 1\<close>, the query for the
  row interval \<open>[y, y]\<close> returns the stretch of the sorted keypoints that holds exactly the
  current keypoints whose y coordinate lies in \<open>[y, y + 1)\<close>, whatever the keypoints are.
\<close>

theorem row_query_exact:
  assumes "y + 1 < h"
  shows "index ` set (corners_between (keypoints_by_y kps)
                        (lut_range (corner_row_LUT (keypoints_by_y kps) h) (int y, int y)))
         = {i. i < length kps \<and> rat_of_nat y \<le> snd (kps ! i) \<and> snd (kps ! i) < rat_of_nat y + 1}"
proof -
  have m: "min (int y + 1) (int h - 1) = int y + 1" using assms by simp
  have "corners_between (keypoints_by_y kps)
          (lut_range (corner_row_LUT (keypoints_by_y kps) h) (int y, int y))
        = filter (\<lambda>k. rat_of_nat y \<le> snd (measurement k)
                     \<and> snd (measurement k) < rat_of_nat y + 1) (keypoints_by_y kps)"
    using corners_between_window[of "int y" "int y" h kps] assms unfolding m by simp
  then have eq: "set (corners_between (keypoints_by_y kps)
                   (lut_range (corner_row_LUT (keypoints_by_y kps) h) (int y, int y)))
        = {k \<in> set (keypoints_by_y kps). rat_of_nat y \<le> snd (measurement k)
                     \<and> snd (measurement k) < rat_of_nat y + 1}"
    by simp
  show ?thesis
  proof (intro set_eqI iffI)
    fix i
    assume "i \<in> index ` set (corners_between (keypoints_by_y kps)
                   (lut_range (corner_row_LUT (keypoints_by_y kps) h) (int y, int y)))"
    then obtain k where k: "k \<in> set (keypoints_by_y kps)" "i = index k"
      "rat_of_nat y \<le> snd (measurement k)" "snd (measurement k) < rat_of_nat y + 1"
      unfolding eq by auto
    then show "i \<in> {i. i < length kps \<and> rat_of_nat y \<le> snd (kps ! i)
                       \<and> snd (kps ! i) < rat_of_nat y + 1}"
      using index_less_keypoints_by_y[OF k(1)] measurement_keypoints_by_y[OF k(1)] by simp
  next
    fix i
    assume "i \<in> {i. i < length kps \<and> rat_of_nat y \<le> snd (kps ! i)
                       \<and> snd (kps ! i) < rat_of_nat y + 1}"
    then have i: "i < length kps" "rat_of_nat y \<le> snd (kps ! i)"
      "snd (kps ! i) < rat_of_nat y + 1" by simp_all
    let ?k = "\<lparr>measurement = kps ! i, index = i\<rparr>"
    have "?k \<in> set (keypoints_by_y kps)" using i(1) by (simp add: set_keypoints_by_y)
    then have "?k \<in> set (corners_between (keypoints_by_y kps)
                   (lut_range (corner_row_LUT (keypoints_by_y kps) h) (int y, int y)))"
      unfolding eq using i by simp
    then show "i \<in> index ` set (corners_between (keypoints_by_y kps)
                   (lut_range (corner_row_LUT (keypoints_by_y kps) h) (int y, int y)))"
      by force
  qed
qed

theorem row_query_exact_witness:
  "(1 :: nat) + 1 < 4
   \<and> index ` set (corners_between (keypoints_by_y [(3, 3 / 2), (5, 1 / 2), (7, 1)])
         (lut_range (corner_row_LUT (keypoints_by_y [(3, 3 / 2), (5, 1 / 2), (7, 1)]) 4)
            (int 1, int 1)))
       = {i. i < length [(3 :: rat, 3 / 2 :: rat), (5, 1 / 2), (7, 1)]
             \<and> rat_of_nat 1 \<le> snd ([(3 :: rat, 3 / 2 :: rat), (5, 1 / 2), (7, 1)] ! i)
             \<and> snd ([(3 :: rat, 3 / 2 :: rat), (5, 1 / 2), (7, 1)] ! i) < rat_of_nat 1 + 1}"
  using row_query_exact[of 1 4 "[(3, 3 / 2), (5, 1 / 2), (7, 1)]"] by simp

section \<open>The status of the projection is not used\<close>

lemma predict_keypoint_cong:
  assumes "\<And>p. snd (backProject3 cam' p) = snd (backProject3 cam p)"
    and "\<And>v. snd (project3 cam' v) = snd (project3 cam v)"
  shows "predict_keypoint cam' C p = predict_keypoint cam C p"
  by (simp add: predict_keypoint_def assms)

text \<open>
  Claim C7, as stated, fails. After a half turn the bearing of the previous keypoint at
  \<open>(10, 0)\<close> lies behind the camera and its projection reports failure; the search is run
  all the same, around the pixel the projection wrote, and the keypoint is matched.
\<close>

theorem failed_projection_still_matched:
  "fst (project3 example_camera
          (mat_vec half_turn (snd (backProject3 example_camera (10, 0))))) = False
   \<and> matchFeatures example_camera half_turn
         (example_frame 2 [(10, 0)] [[1, 2]] [5]) (example_frame 1 [(10, 0)] [[1, 2]] [5])
       = Inr [(0, 0)]"
  by code_simp

text \<open>
  Claim C7, amended. The tracker does not look at the status of the back-projection or
  of the re-projection. Every previous keypoint, also one whose predicted bearing fails to
  re-project, is searched around the pixel that the projection wrote: two cameras with the
  same image height that write the same values give the same matches (or the same abort),
  whatever statuses they report. A failed projection by itself surfaces no failure.
\<close>

theorem matchFeatures_ignores_projection_status:
  assumes "imageHeight cam' = imageHeight cam"
    and "\<forall>p. snd (backProject3 cam' p) = snd (backProject3 cam p)"
    and "\<forall>v. snd (project3 cam' v) = snd (project3 cam v)"
  shows "matchFeatures cam' C current_frame previous_frame
           = matchFeatures cam C current_frame previous_frame"
proof -
  have "predict_keypoint cam' C = predict_keypoint cam C"
  proof (intro ext predict_keypoint_cong)
    show "snd (backProject3 cam' p) = snd (backProject3 cam p)" for p
      using assms(2) by (rule spec)
    show "snd (project3 cam' v) = snd (project3 cam v)" for v
      using assms(3) by (rule spec)
  qed
  then show ?thesis by (simp add: matchFeatures_def Let_def assms(1))
qed

theorem matchFeatures_ignores_projection_status_witness:
  "imageHeight failing_camera = imageHeight example_camera
   \<and> (\<forall>p. snd (backProject3 failing_camera p) = snd (backProject3 example_camera p))
   \<and> (\<forall>v. snd (project3 failing_camera v) = snd (project3 example_camera v))
   \<and> (\<forall>v. fst (project3 failing_camera v) = False)
   \<and> matchFeatures failing_camera identity3
        (example_frame 2 [(10, 10)] [[1, 2]] [5]) (example_frame 1 [(10, 10)] [[1, 2]] [5])
      = Inr [(0, 0)]"
proof -
  have h: "imageHeight failing_camera = imageHeight example_camera"
    "\<forall>p. snd (backProject3 failing_camera p) = snd (backProject3 example_camera p)"
    "\<forall>v. snd (project3 failing_camera v) = snd (project3 example_camera v)"
    by (simp_all add: failing_camera_def)
  have f: "\<forall>v. fst (project3 failing_camera v) = False"
    by (simp add: failing_camera_def)
  have e: "matchFeatures example_camera identity3
        (example_frame 2 [(10, 10)] [[1, 2]] [5]) (example_frame 1 [(10, 10)] [[1, 2]] [5])
      = Inr [(0, 0)]"
    by code_simp
  have "matchFeatures failing_camera identity3
        (example_frame 2 [(10, 10)] [[1, 2]] [5]) (example_frame 1 [(10, 10)] [[1, 2]] [5])
      = Inr [(0, 0)]"
    unfolding matchFeatures_ignores_projection_status[OF h] by (rule e)
  with h f show ?thesis by blast
qed

section \<open>The match search\<close>

subsection \<open>One search loop\<close>

lemma search_step_not_compared:
  "\<not> compared skip bl br st k \<Longrightarrow> search_step d pd cds pp skip bl br rad k st = Inr st"
  by (auto simp: search_step_def compared_def)

lemma search_step_compared:
  assumes "compared skip bl br st k"
    and "search_step d pd cds pp skip bl br rad k st = Inr st1"
  shows "st1 = st\<lparr>found := (found st \<or> score d pd cds k > best_score st),
                  it_best := (if score d pd cds k > best_score st then Some k else it_best st),
                  best_score := (if score d pd cds k > best_score st then score d pd cds k
                                 else best_score st),
                  processed_current_corners := (processed_current_corners st)[index k := True],
                  n_processed_corners := n_processed_corners st + 1\<rparr>"
  using assms
  by (auto simp: search_step_def compared_def score_def descriptor_distance_def
      hammingDistance512_result Let_def split: if_splits sum.splits)

lemma after_scan_Nil: "after_scan sc [] st = st"
  by (simp add: after_scan_def)

lemma after_scan_Cons:
  "after_scan sc (k # C) st =
     after_scan sc C
       (st\<lparr>found := (found st \<or> sc k > best_score st),
           it_best := (if sc k > best_score st then Some k else it_best st),
           best_score := (if sc k > best_score st then sc k else best_score st),
           processed_current_corners := (processed_current_corners st)[index k := True],
           n_processed_corners := n_processed_corners st + 1\<rparr>)"
  by (simp add: after_scan_def split: prod.splits)

lemma search_window_after_scan:
  assumes "search_window d pd cds pp skip bl br rad L st = Inr st'"
    and "distinct (map index L)"
  shows "st' = after_scan (score d pd cds) (filter (compared skip bl br st) L) st"
  using assms
proof (induction L arbitrary: st)
  case Nil
  then show ?case by (simp add: after_scan_Nil)
next
  case (Cons k L)
  from Cons.prems(1) obtain st1 where
    s1: "search_step d pd cds pp skip bl br rad k st = Inr st1"
    and rest: "search_window d pd cds pp skip bl br rad L st1 = Inr st'"
    by (auto split: sum.splits)
  have dL: "distinct (map index L)" and nk: "index k \<notin> index ` set L"
    using Cons.prems(2) by simp_all
  note ih = Cons.IH[OF rest dL]
  show ?case
  proof (cases "compared skip bl br st k")
    case False
    with s1 have "st1 = st" by (simp add: search_step_not_compared)
    with ih False show ?thesis by simp
  next
    case True
    note e = search_step_compared[OF True s1]
    have same: "filter (compared skip bl br st1) L = filter (compared skip bl br st) L"
    proof (rule filter_cong[OF refl])
      fix k' assume "k' \<in> set L"
      then have "index k' \<in> index ` set L" by (rule imageI)
      with nk have "index k' \<noteq> index k" by metis
      then show "compared skip bl br st1 k' = compared skip bl br st k'"
        unfolding e by (simp add: compared_def)
    qed
    show ?thesis using ih True unfolding same by (simp add: after_scan_Cons e)
  qed
qed


lemma scan_best_no_better:
  "\<forall>k\<in>set C. sc k \<le> s \<Longrightarrow> scan_best sc C (f, b, s) = (f, b, s)"
  by (induction C) auto

lemma scan_best_better:
  assumes "\<exists>k\<in>set C. sc k > s"
  shows "\<exists>pre k post. C = pre @ k # post \<and> scan_best sc C (f, b, s) = (True, Some k, sc k)
           \<and> sc k > s \<and> (\<forall>k'\<in>set pre. sc k' < sc k) \<and> (\<forall>k'\<in>set post. sc k' \<le> sc k)"
  using assms
proof (induction C arbitrary: f b s)
  case Nil
  then show ?case by simp
next
  case (Cons x C)
  show ?case
  proof (cases "sc x > s")
    case True
    show ?thesis
    proof (cases "\<exists>k\<in>set C. sc k > sc x")
      case True
      from Cons.IH[OF True, of True "Some x"] obtain pre k post where
        p: "C = pre @ k # post" "scan_best sc C (True, Some x, sc x) = (True, Some k, sc k)"
        "sc k > sc x" "\<forall>k'\<in>set pre. sc k' < sc k" "\<forall>k'\<in>set post. sc k' \<le> sc k"
        by blast
      have "x # C = (x # pre) @ k # post" using p(1) by simp
      moreover have "scan_best sc (x # C) (f, b, s) = (True, Some k, sc k)"
        using \<open>sc x > s\<close> p(2) by simp
      moreover have "sc k > s" using p(3) \<open>sc x > s\<close> by simp
      moreover have "\<forall>k'\<in>set (x # pre). sc k' < sc k" using p(3,4) by simp
      ultimately show ?thesis using p(5) by blast
    next
      case False
      then have le: "\<forall>k\<in>set C. sc k \<le> sc x" by (simp add: not_less)
      have "scan_best sc (x # C) (f, b, s) = (True, Some x, sc x)"
        using True scan_best_no_better[OF le] by simp
      moreover have "x # C = [] @ x # C" by simp
      ultimately show ?thesis using True le
        by (metis empty_iff list.set(1))
    qed
  next
    case False
    with Cons.prems have ex: "\<exists>k\<in>set C. sc k > s" by auto
    from Cons.IH[OF ex, of f b] obtain pre k post where
      p: "C = pre @ k # post" "scan_best sc C (f, b, s) = (True, Some k, sc k)"
      "sc k > s" "\<forall>k'\<in>set pre. sc k' < sc k" "\<forall>k'\<in>set post. sc k' \<le> sc k"
      by blast
    have "x # C = (x # pre) @ k # post" using p(1) by simp
    moreover have "scan_best sc (x # C) (f, b, s) = (True, Some k, sc k)"
      using False p(2) by simp
    moreover have "\<forall>k'\<in>set (x # pre). sc k' < sc k" using p(3,4) False by simp
    ultimately show ?thesis using p(3,5) by blast
  qed
qed

lemma fold_mark_length: "length (fold (\<lambda>k p. p[index k := True]) C p) = length p"
  by (induction C arbitrary: p) simp_all

lemma fold_mark_nth:
  "i < length p \<Longrightarrow>
     fold (\<lambda>k p. p[index k := True]) C p ! i \<longleftrightarrow> p ! i \<or> i \<in> index ` set C"
proof (induction C arbitrary: p)
  case Nil
  then show ?case by simp
next
  case (Cons k C)
  have len: "i < length (p[index k := True])" using Cons.prems by simp
  have upd: "p[index k := True] ! i \<longleftrightarrow> p ! i \<or> i = index k"
  proof (cases "index k < length p")
    case True
    then show ?thesis by (auto simp: nth_list_update)
  next
    case False
    then have "p[index k := True] = p" by (simp add: list_update_beyond)
    moreover have "i \<noteq> index k" using False Cons.prems by auto
    ultimately show ?thesis by simp
  qed
  show ?case using Cons.IH[OF len] upd by auto
qed

lemma trunc_mono: "x \<le> y \<Longrightarrow> trunc x \<le> trunc y"
proof -
  assume xy: "x \<le> y"
  consider "0 \<le> x" | "x < 0" "0 \<le> y" | "x < 0" "y < 0" by linarith
  then show ?thesis
  proof cases
    case 1
    then have "0 \<le> y" using xy by simp
    with 1 xy show ?thesis by (simp add: trunc_def floor_mono)
  next
    case 2
    have "\<lceil>x\<rceil> \<le> 0" using 2(1) by (simp add: ceiling_le_zero)
    moreover have "0 \<le> \<lfloor>y\<rfloor>" using 2(2) by simp
    moreover have "trunc x = \<lceil>x\<rceil>" "trunc y = \<lfloor>y\<rfloor>"
      using 2 by (simp_all add: trunc_def)
    ultimately show ?thesis by linarith
  next
    case 3
    with xy show ?thesis by (simp add: trunc_def ceiling_mono)
  qed
qed

lemma clamp_mono: "a \<le> b \<Longrightarrow> clamp lo hi a \<le> clamp lo hi b"
  by (auto simp: clamp_def min_def max_def)

lemma row_bounds_Inr:
  assumes "row_bounds h py r = Inr idx"
  shows "idx = (window_top h py r, clamp 0 (int h - 1) (trunc (py + 1 / 2 + rat_of_int r)))"
    and "0 \<le> fst idx" and "fst idx \<le> snd idx" and "snd idx < int h"
  using assms
  by (auto simp: row_bounds_def window_top_def Let_def split: if_splits)

lemma row_bounds_total:
  assumes "0 < h" and "0 \<le> r"
  shows "\<exists>idx. row_bounds h py r = Inr idx"
proof -
  have "py + 1 / 2 - rat_of_int r \<le> py + 1 / 2 + rat_of_int r" using assms(2) by simp
  then have "clamp 0 (int h - 1) (trunc (py + 1 / 2 - rat_of_int r))
      \<le> clamp 0 (int h - 1) (trunc (py + 1 / 2 + rat_of_int r))"
    by (intro clamp_mono trunc_mono)
  moreover have "0 \<le> clamp 0 (int h - 1) z" "clamp 0 (int h - 1) z < int h" for z
    using assms(1) by (auto simp: clamp_def)
  ultimately show ?thesis by (simp add: row_bounds_def Let_def)
qed

lemma window_corners:
  assumes "row_bounds h (snd pp) r = Inr idx"
  shows "filter (\<lambda>k. \<not> (fst (measurement k) < rat_of_int (trunc (fst pp - rat_of_int r))
                        \<or> fst (measurement k) > rat_of_int (trunc (fst pp + rat_of_int r))))
           (corners_between (keypoints_by_y kps)
              (lut_range (corner_row_LUT (keypoints_by_y kps) h) idx))
         = window h pp r (keypoints_by_y kps)"
proof -
  obtain i0 i1 where idx: "idx = (i0, i1)" by (cases idx)
  note b = row_bounds_Inr[OF assms, unfolded idx fst_conv snd_conv]
  have bot: "min (i1 + 1) (int h - 1) = window_bottom h (snd pp) r"
    using b(1) by (simp add: window_bottom_def)
  have top: "i0 = window_top h (snd pp) r" using b(1) by simp
  have e: "corners_between (keypoints_by_y kps)
              (lut_range (corner_row_LUT (keypoints_by_y kps) h) idx)
        = filter (\<lambda>k. rat_of_int (window_top h (snd pp) r) \<le> snd (measurement k)
                      \<and> snd (measurement k) < rat_of_int (window_bottom h (snd pp) r))
             (keypoints_by_y kps)"
    using corners_between_window[OF b(2) b(3) b(4), of kps] unfolding bot idx top[symmetric] .
  show ?thesis
    unfolding e window_def filter_filter
    by (intro filter_cong[OF refl]) (auto simp: in_window_def)
qed



lemma distinct_index_corners_between:
  "distinct (map index (corners_between (keypoints_by_y kps) rg))"
proof -
  have "map index (corners_between (keypoints_by_y kps) rg)
          = take (snd rg - fst rg) (drop (fst rg) (map index (keypoints_by_y kps)))"
    by (simp add: corners_between_def take_map drop_map)
  then show ?thesis using distinct_index_keypoints_by_y[of kps] by simp
qed

lemma set_corners_between: "set (corners_between by_y rg) \<subseteq> set by_y"
  unfolding corners_between_def
  by (meson set_take_subset set_drop_subset subset_trans)

lemma set_window: "set (window h pp r by_y) \<subseteq> set by_y"
  by (auto simp: window_def)

lemma index_inj_keypoints_by_y:
  assumes "k \<in> set (keypoints_by_y kps)" and "k' \<in> set (keypoints_by_y kps)"
    and "index k = index k'"
  shows "k = k'"
  using assms by (auto simp: set_keypoints_by_y)

lemma score_gt_iff: "score d pd cds k > 512 - kMatchingThresholdBits \<longleftrightarrow> descriptor_distance d pd cds k < 120"
  by (auto simp: score_def kMatchingThresholdBits_def)

lemma score_less_iff:
  "score d pd cds k' < score d pd cds k \<longleftrightarrow> descriptor_distance d pd cds k < descriptor_distance d pd cds k'"
  by (auto simp: score_def)

lemma score_le_iff:
  "score d pd cds k' \<le> score d pd cds k \<longleftrightarrow> descriptor_distance d pd cds k \<le> descriptor_distance d pd cds k'"
  by (auto simp: score_def)

lemma small_pass:
  assumes rb: "row_bounds h (snd pp) r = Inr idx"
    and sw: "search_window d pd cds pp False (trunc (fst pp - rat_of_int r))
               (trunc (fst pp + rat_of_int r)) r
               (corners_between (keypoints_by_y kps)
                  (lut_range (corner_row_LUT (keypoints_by_y kps) h) idx)) st = Inr st'"
  shows "st' = after_scan (score d pd cds) (window h pp r (keypoints_by_y kps)) st"
proof -
  have "filter (compared False (trunc (fst pp - rat_of_int r)) (trunc (fst pp + rat_of_int r)) st)
          (corners_between (keypoints_by_y kps)
             (lut_range (corner_row_LUT (keypoints_by_y kps) h) idx))
        = window h pp r (keypoints_by_y kps)"
  proof -
    have "filter (compared False (trunc (fst pp - rat_of_int r)) (trunc (fst pp + rat_of_int r)) st)
            (corners_between (keypoints_by_y kps)
               (lut_range (corner_row_LUT (keypoints_by_y kps) h) idx))
          = filter (\<lambda>k. \<not> (fst (measurement k) < rat_of_int (trunc (fst pp - rat_of_int r))
                        \<or> fst (measurement k) > rat_of_int (trunc (fst pp + rat_of_int r))))
            (corners_between (keypoints_by_y kps)
               (lut_range (corner_row_LUT (keypoints_by_y kps) h) idx))"
      by (rule filter_cong[OF refl]) (simp add: compared_def)
    then show ?thesis using window_corners[OF rb, of kps] by (simp only:)
  qed
  with search_window_after_scan[OF sw distinct_index_corners_between] show ?thesis by simp
qed

lemma large_pass:
  assumes rb: "row_bounds h (snd pp) r = Inr idx"
    and sw: "search_window d pd cds pp True (trunc (fst pp - rat_of_int r))
               (trunc (fst pp + rat_of_int r)) r
               (corners_between (keypoints_by_y kps)
                  (lut_range (corner_row_LUT (keypoints_by_y kps) h) idx)) st = Inr st'"
    and pr: "processed_current_corners st
               = fold (\<lambda>k p. p[index k := True]) Ws (replicate (length kps) False)"
    and ws: "set Ws \<subseteq> set (keypoints_by_y kps)"
  shows "st' = after_scan (score d pd cds)
                 (filter (\<lambda>k. k \<notin> set Ws) (window h pp r (keypoints_by_y kps))) st"
proof -
  let ?L = "corners_between (keypoints_by_y kps)
                  (lut_range (corner_row_LUT (keypoints_by_y kps) h) idx)"
  let ?x = "\<lambda>k. \<not> (fst (measurement k) < rat_of_int (trunc (fst pp - rat_of_int r))
                        \<or> fst (measurement k) > rat_of_int (trunc (fst pp + rat_of_int r)))"
  have flag: "processed_current_corners st ! index k \<longleftrightarrow> k \<in> set Ws"
    if k: "k \<in> set (keypoints_by_y kps)" for k
  proof -
    have "index k < length (replicate (length kps) False)"
      using index_less_keypoints_by_y[OF k] by simp
    from fold_mark_nth[OF this, of Ws]
    have "processed_current_corners st ! index k \<longleftrightarrow> index k \<in> index ` set Ws"
      unfolding pr using index_less_keypoints_by_y[OF k] by simp
    also have "\<dots> \<longleftrightarrow> k \<in> set Ws"
    proof
      assume "index k \<in> index ` set Ws"
      then obtain k' where k': "k' \<in> set Ws" "index k = index k'" by auto
      then have "k = k'" using index_inj_keypoints_by_y[OF k _ k'(2)] ws by auto
      with k'(1) show "k \<in> set Ws" by simp
    qed simp
    finally show ?thesis .
  qed
  have "filter (compared True (trunc (fst pp - rat_of_int r)) (trunc (fst pp + rat_of_int r)) st) ?L
        = filter (\<lambda>k. k \<notin> set Ws \<and> ?x k) ?L"
  proof (rule filter_cong[OF refl])
    fix k assume "k \<in> set ?L"
    then have "k \<in> set (keypoints_by_y kps)" using set_corners_between by blast
    from flag[OF this]
    show "compared True (trunc (fst pp - rat_of_int r)) (trunc (fst pp + rat_of_int r)) st k
            = (k \<notin> set Ws \<and> ?x k)"
      by (simp add: compared_def)
  qed
  also have "\<dots> = filter (\<lambda>k. k \<notin> set Ws) (filter ?x ?L)"
    by (simp add: conj_commute)
  also have "\<dots> = filter (\<lambda>k. k \<notin> set Ws) (window h pp r (keypoints_by_y kps))"
    using window_corners[OF rb, of kps] by simp
  finally show ?thesis
    using search_window_after_scan[OF sw distinct_index_corners_between] by simp
qed

lemma filter_eq_split:
  "filter P W = pre @ k # post \<Longrightarrow>
     \<exists>us vs. W = us @ k # vs \<and> filter P us = pre \<and> filter P vs = post"
proof (induction W arbitrary: pre)
  case Nil
  then show ?case by simp
next
  case (Cons x W)
  show ?case
  proof (cases "P x")
    case False
    with Cons.prems have "filter P W = pre @ k # post" by simp
    from Cons.IH[OF this] obtain us vs where
      "W = us @ k # vs" "filter P us = pre" "filter P vs = post" by blast
    then have "x # W = (x # us) @ k # vs \<and> filter P (x # us) = pre \<and> filter P vs = post"
      using False by simp
    then show ?thesis by blast
  next
    case True
    show ?thesis
    proof (cases pre)
      case Nil
      with True Cons.prems have "x = k" "filter P W = post" by simp_all
      then have "x # W = [] @ k # W \<and> filter P [] = pre \<and> filter P W = post"
        using Nil by simp
      then show ?thesis by blast
    next
      case (Cons y pre')
      with True Cons.prems have xy: "x = y" and f: "filter P W = pre' @ k # post" by simp_all
      from Cons.IH[OF f] obtain us vs where
        "W = us @ k # vs" "filter P us = pre'" "filter P vs = post" by blast
      then have "x # W = (x # us) @ k # vs \<and> filter P (x # us) = pre \<and> filter P vs = post"
        using True xy Cons by simp
      then show ?thesis by blast
    qed
  qed
qed

lemma first_closest_through_filter:
  assumes dec: "filter P W = pre @ k # post"
    and pre: "\<forall>k'\<in>set pre. dst k < dst k'" and post: "\<forall>k'\<in>set post. dst k \<le> dst k'"
    and out: "\<forall>k'\<in>set W. \<not> P k' \<longrightarrow> dst k < dst k'"
  shows "first_closest dst W k"
proof -
  from filter_eq_split[OF dec] obtain us vs where
    W: "W = us @ k # vs" and fu: "filter P us = pre" and fv: "filter P vs = post" by blast
  have "dst k < dst k'" if "k' \<in> set us" for k'
  proof (cases "P k'")
    case True
    with that have "k' \<in> set pre" using fu by auto
    with pre show ?thesis by simp
  next
    case False
    moreover have "k' \<in> set W" using that W by auto
    ultimately show ?thesis using out by simp
  qed
  moreover have "dst k \<le> dst k'" if "k' \<in> set vs" for k'
  proof (cases "P k'")
    case True
    with that have "k' \<in> set post" using fv by auto
    with post show ?thesis by simp
  next
    case False
    moreover have "k' \<in> set W" using that W by auto
    ultimately show ?thesis using out by (simp add: less_imp_le)
  qed
  ultimately show ?thesis unfolding first_closest_def using W by blast
qed

subsection \<open>The two passes for one previous keypoint\<close>

lemma match_one_unfold:
  assumes m: "match_one h d (keypoints_by_y kps) (corner_row_LUT (keypoints_by_y kps) h) cds pp pd
             = Inr (r, n)"
  obtains idxs idxl st1 st2 where
    "row_bounds h (snd pp) min_search_radius = Inr idxs"
    "row_bounds h (snd pp) search_radius = Inr idxl"
    "search_window d pd cds pp False (trunc (fst pp - rat_of_int min_search_radius))
       (trunc (fst pp + rat_of_int min_search_radius)) min_search_radius
       (corners_between (keypoints_by_y kps)
          (lut_range (corner_row_LUT (keypoints_by_y kps) h) idxs))
       \<lparr>found = False, it_best = None, best_score = 512 - kMatchingThresholdBits,
        processed_current_corners = replicate (length (keypoints_by_y kps)) False,
        n_processed_corners = 0\<rparr> = Inr st1"
    "found st1 \<Longrightarrow> st2 = st1"
    "\<not> found st1 \<Longrightarrow>
       search_window d pd cds pp True (trunc (fst pp - rat_of_int search_radius))
         (trunc (fst pp + rat_of_int search_radius)) search_radius
         (corners_between (keypoints_by_y kps)
            (lut_range (corner_row_LUT (keypoints_by_y kps) h) idxl)) st1 = Inr st2"
    "r = (if found st2 then map_option index (it_best st2) else None)"
    "n = n_processed_corners st2"
proof -
  obtain idxs where rb1: "row_bounds h (snd pp) min_search_radius = Inr idxs"
    using m by (cases "row_bounds h (snd pp) min_search_radius") (simp_all add: match_one_def)
  obtain idxl where rb2: "row_bounds h (snd pp) search_radius = Inr idxl"
    using m rb1 by (cases "row_bounds h (snd pp) search_radius") (simp_all add: match_one_def)
  let ?st0 = "\<lparr>found = False, it_best = None, best_score = 512 - kMatchingThresholdBits,
        processed_current_corners = replicate (length (keypoints_by_y kps)) False,
        n_processed_corners = 0\<rparr>"
  let ?sw1 = "search_window d pd cds pp False (trunc (fst pp - rat_of_int min_search_radius))
       (trunc (fst pp + rat_of_int min_search_radius)) min_search_radius
       (corners_between (keypoints_by_y kps)
          (lut_range (corner_row_LUT (keypoints_by_y kps) h) idxs)) ?st0"
  obtain st1 where sw1: "?sw1 = Inr st1"
    using m rb1 rb2 by (cases ?sw1) (simp_all add: match_one_def Let_def)
  let ?sw2 = "\<lambda>st1. search_window d pd cds pp True (trunc (fst pp - rat_of_int search_radius))
         (trunc (fst pp + rat_of_int search_radius)) search_radius
         (corners_between (keypoints_by_y kps)
            (lut_range (corner_row_LUT (keypoints_by_y kps) h) idxl)) st1"
  let ?second = "if \<not> found st1 then ?sw2 st1 else Inr st1"
  obtain st2 where sw2: "?second = Inr st2"
    using m rb1 rb2 sw1 by (cases ?second) (simp_all add: match_one_def Let_def)
  have res: "r = (if found st2 then map_option index (it_best st2) else None)"
    "n = n_processed_corners st2"
    using m rb1 rb2 sw1 sw2 by (simp_all add: match_one_def Let_def)
  have a: "found st1 \<Longrightarrow> st2 = st1" using sw2 by simp
  have b: "\<not> found st1 \<Longrightarrow> ?sw2 st1 = Inr st2" using sw2 by simp
  show thesis using that[OF rb1 rb2 sw1 a b res] by blast
qed


lemma after_scan_fields:
  assumes "scan_best sc C (found st, it_best st, best_score st) = (f, b, s)"
  shows "found (after_scan sc C st) = f" and "it_best (after_scan sc C st) = b"
    and "best_score (after_scan sc C st) = s"
    and "processed_current_corners (after_scan sc C st)
           = fold (\<lambda>k p. p[index k := True]) C (processed_current_corners st)"
    and "n_processed_corners (after_scan sc C st) = n_processed_corners st + length C"
  using assms by (simp_all add: after_scan_def)

lemma first_closest_of_scores:
  assumes "W = pre @ k # post"
    and "\<forall>k'\<in>set pre. score d pd cds k' < score d pd cds k"
    and "\<forall>k'\<in>set post. score d pd cds k' \<le> score d pd cds k"
  shows "first_closest (descriptor_distance d pd cds) W k"
  unfolding first_closest_def using assms by (auto simp: score_less_iff score_le_iff)

lemma match_one_result:
  assumes m: "match_one h d (keypoints_by_y kps) (corner_row_LUT (keypoints_by_y kps) h) cds pp pd
             = Inr (r, n)"
  defines "Ws \<equiv> window h pp min_search_radius (keypoints_by_y kps)"
    and "Wl \<equiv> window h pp search_radius (keypoints_by_y kps)"
    and "dst \<equiv> descriptor_distance d pd cds"
  shows "\<exists>k\<in>set Ws. dst k < 120 \<Longrightarrow>
           \<exists>k. r = Some (index k) \<and> dst k < 120 \<and> first_closest dst Ws k \<and> n = length Ws"
    and "\<not> (\<exists>k\<in>set Ws. dst k < 120) \<Longrightarrow> \<exists>k\<in>set Wl. dst k < 120 \<Longrightarrow>
           \<exists>k. r = Some (index k) \<and> dst k < 120 \<and> first_closest dst Wl k
               \<and> n = length Ws + length (filter (\<lambda>k. k \<notin> set Ws) Wl)"
    and "\<not> (\<exists>k\<in>set Ws. dst k < 120) \<Longrightarrow> \<not> (\<exists>k\<in>set Wl. dst k < 120) \<Longrightarrow>
           r = None \<and> n = length Ws + length (filter (\<lambda>k. k \<notin> set Ws) Wl)"
proof -
  let ?sc = "score d pd cds"
  let ?t = "512 - kMatchingThresholdBits"
  let ?st0 = "\<lparr>found = False, it_best = None, best_score = ?t,
        processed_current_corners = replicate (length (keypoints_by_y kps)) False,
        n_processed_corners = 0\<rparr>"
  from match_one_unfold[OF m] obtain idxs idxl st1 st2 where
    rb1: "row_bounds h (snd pp) min_search_radius = Inr idxs" and
    rb2: "row_bounds h (snd pp) search_radius = Inr idxl" and
    sw1: "search_window d pd cds pp False (trunc (fst pp - rat_of_int min_search_radius))
       (trunc (fst pp + rat_of_int min_search_radius)) min_search_radius
       (corners_between (keypoints_by_y kps)
          (lut_range (corner_row_LUT (keypoints_by_y kps) h) idxs)) ?st0 = Inr st1" and
    fnd: "found st1 \<Longrightarrow> st2 = st1" and
    sw2: "\<not> found st1 \<Longrightarrow>
       search_window d pd cds pp True (trunc (fst pp - rat_of_int search_radius))
         (trunc (fst pp + rat_of_int search_radius)) search_radius
         (corners_between (keypoints_by_y kps)
            (lut_range (corner_row_LUT (keypoints_by_y kps) h) idxl)) st1 = Inr st2" and
    r: "r = (if found st2 then map_option index (it_best st2) else None)" and
    n: "n = n_processed_corners st2"
    by blast
  have st1: "st1 = after_scan ?sc Ws ?st0"
    unfolding Ws_def by (rule small_pass[OF rb1 sw1])
  have gt: "?sc k > ?t \<longleftrightarrow> dst k < 120" for k
    unfolding dst_def by (rule score_gt_iff)
  have le: "?sc k \<le> ?t \<longleftrightarrow> \<not> dst k < 120" for k
    using gt[of k] by linarith
  show "\<exists>k. r = Some (index k) \<and> dst k < 120 \<and> first_closest dst Ws k \<and> n = length Ws"
    if "\<exists>k\<in>set Ws. dst k < 120"
  proof -
    from that have "\<exists>k\<in>set Ws. ?sc k > ?t" by (simp add: gt)
    from scan_best_better[OF this, of False None] obtain pre k post where
      p: "Ws = pre @ k # post" "scan_best ?sc Ws (False, None, ?t) = (True, Some k, ?sc k)"
      "?sc k > ?t" "\<forall>k'\<in>set pre. ?sc k' < ?sc k" "\<forall>k'\<in>set post. ?sc k' \<le> ?sc k"
      by blast
    have s: "scan_best ?sc Ws (found ?st0, it_best ?st0, best_score ?st0) = (True, Some k, ?sc k)"
      using p(2) by simp
    note f = after_scan_fields[OF s, folded st1]
    have "st2 = st1" using fnd f(1) by simp
    then have "r = Some (index k)" "n = length Ws" using r n f by simp_all
    moreover have "dst k < 120" using p(3) by (simp add: gt)
    moreover have "first_closest dst Ws k"
      unfolding dst_def by (rule first_closest_of_scores[OF p(1) p(4) p(5)])
    ultimately show ?thesis by blast
  qed
  assume none: "\<not> (\<exists>k\<in>set Ws. dst k < 120)"
  then have "\<forall>k\<in>set Ws. ?sc k \<le> ?t" unfolding le by blast
  from scan_best_no_better[OF this, of False None]
  have s: "scan_best ?sc Ws (found ?st0, it_best ?st0, best_score ?st0) = (False, None, ?t)"
    by simp
  note f1 = after_scan_fields[OF s, folded st1]
  have pr: "processed_current_corners st1
              = fold (\<lambda>k p. p[index k := True]) Ws (replicate (length kps) False)"
    using f1(4) by (simp add: length_keypoints_by_y)
  have ws: "set Ws \<subseteq> set (keypoints_by_y kps)" unfolding Ws_def by (rule set_window)
  let ?Cl = "filter (\<lambda>k. k \<notin> set Ws) Wl"
  have st2: "st2 = after_scan ?sc ?Cl st1"
    unfolding Wl_def using large_pass[OF rb2 sw2 pr ws] f1(1) by simp
  have start: "(found st1, it_best st1, best_score st1) = (False, None, ?t)"
    using f1 by simp
  show "\<exists>k. r = Some (index k) \<and> dst k < 120 \<and> first_closest dst Wl k
               \<and> n = length Ws + length ?Cl"
    if "\<exists>k\<in>set Wl. dst k < 120"
  proof -
    from that obtain k0 where k0: "k0 \<in> set Wl" "dst k0 < 120" by blast
    with none have "k0 \<in> set ?Cl" by auto
    with k0(2) have "\<exists>k\<in>set ?Cl. ?sc k > ?t" using gt by blast
    from scan_best_better[OF this, of False None] obtain pre k post where
      p: "?Cl = pre @ k # post" "scan_best ?sc ?Cl (False, None, ?t) = (True, Some k, ?sc k)"
      "?sc k > ?t" "\<forall>k'\<in>set pre. ?sc k' < ?sc k" "\<forall>k'\<in>set post. ?sc k' \<le> ?sc k"
      by blast
    have s2: "scan_best ?sc ?Cl (found st1, it_best st1, best_score st1) = (True, Some k, ?sc k)"
      unfolding start by (rule p(2))
    note f2 = after_scan_fields[OF s2, folded st2]
    have "r = Some (index k)" using r f2 by simp
    moreover have "n = length Ws + length ?Cl" using n f2(5) f1(5) by simp
    moreover have dk: "dst k < 120" using p(3) by (simp add: gt)
    moreover have "first_closest dst Wl k"
    proof (rule first_closest_through_filter[OF p(1)])
      show "\<forall>k'\<in>set pre. dst k < dst k'"
        using p(4) unfolding dst_def by (simp add: score_less_iff)
      show "\<forall>k'\<in>set post. dst k \<le> dst k'"
        using p(5) unfolding dst_def by (simp add: score_le_iff)
      show "\<forall>k'\<in>set Wl. \<not> k' \<notin> set Ws \<longrightarrow> dst k < dst k'"
      proof (intro ballI impI)
        fix k' assume "k' \<in> set Wl" "\<not> k' \<notin> set Ws"
        then have "\<not> dst k' < 120" using none by blast
        with dk show "dst k < dst k'" by simp
      qed
    qed
    ultimately show ?thesis by blast
  qed
  show "r = None \<and> n = length Ws + length ?Cl" if "\<not> (\<exists>k\<in>set Wl. dst k < 120)"
  proof -
    from that have "\<forall>k\<in>set ?Cl. ?sc k \<le> ?t" unfolding le by auto
    from scan_best_no_better[OF this, of False None]
    have s2: "scan_best ?sc ?Cl (found st1, it_best st1, best_score st1) = (False, None, ?t)"
      unfolding start .
    note f2 = after_scan_fields[OF s2, folded st2]
    show ?thesis using r n f2 f1(5) by simp
  qed
qed

subsection \<open>All previous keypoints\<close>

lemma first_closest_mem: "first_closest dst W k \<Longrightarrow> k \<in> set W"
  by (auto simp: first_closest_def)

lemma match_one_index_bound:
  assumes "match_one h d (keypoints_by_y kps) (corner_row_LUT (keypoints_by_y kps) h) cds pp pd
             = Inr (Some j, n)"
  shows "j < length kps"
proof -
  let ?Ws = "window h pp min_search_radius (keypoints_by_y kps)"
  let ?Wl = "window h pp search_radius (keypoints_by_y kps)"
  let ?dst = "descriptor_distance d pd cds"
  note res = match_one_result[OF assms]
  have "\<exists>k\<in>set (keypoints_by_y kps). j = index k"
  proof (cases "\<exists>k\<in>set ?Ws. ?dst k < 120")
    case True
    from res(1)[OF True] obtain k where "j = index k" "first_closest ?dst ?Ws k" by auto
    then show ?thesis using first_closest_mem set_window by blast
  next
    case False
    show ?thesis
    proof (cases "\<exists>k\<in>set ?Wl. ?dst k < 120")
      case True
      from res(2)[OF False True] obtain k where "j = index k" "first_closest ?dst ?Wl k" by auto
      then show ?thesis using first_closest_mem set_window by blast
    next
      case no: False
      from res(3)[OF False no] show ?thesis by simp
    qed
  qed
  then show ?thesis using index_less_keypoints_by_y by blast
qed

lemma match_loop_result:
  assumes "match_loop h d by_y lut cds predicted pds is = Inr ms" and "distinct is"
  shows "(\<forall>i\<in>set is. \<exists>r n. match_one h d by_y lut cds (predicted ! i) (pds ! i) = Inr (r, n)
                          \<and> (\<forall>j. (i, j) \<in> set ms \<longleftrightarrow> r = Some j))
         \<and> fst ` set ms \<subseteq> set is \<and> distinct (map fst ms)"
  using assms
proof (induction "is" arbitrary: ms)
  case Nil
  then show ?case by simp
next
  case (Cons i "is")
  from Cons.prems(1) obtain r n ms' where
    one: "match_one h d by_y lut cds (predicted ! i) (pds ! i) = Inr (r, n)" and
    rest: "match_loop h d by_y lut cds predicted pds is = Inr ms'" and
    ms: "ms = (case r of None \<Rightarrow> [] | Some j \<Rightarrow> [(i, j)]) @ ms'"
    by (auto split: sum.splits)
  have d: "distinct is" and ni: "i \<notin> set is" using Cons.prems(2) by simp_all
  note ih = Cons.IH[OF rest d]
  have sub: "fst ` set ms' \<subseteq> set is" using ih by simp
  have notin: "(i, j) \<notin> set ms'" for j
  proof
    assume "(i, j) \<in> set ms'"
    then have "fst (i, j) \<in> fst ` set ms'" by (rule imageI)
    with sub ni show False by auto
  qed
  have here: "\<forall>j. (i, j) \<in> set ms \<longleftrightarrow> r = Some j"
    using notin by (auto simp: ms split: option.splits)
  have others: "\<exists>r n. match_one h d by_y lut cds (predicted ! i') (pds ! i') = Inr (r, n)
                  \<and> (\<forall>j. (i', j) \<in> set ms \<longleftrightarrow> r = Some j)" if "i' \<in> set is" for i'
  proof -
    from ih that obtain r' n' where
      r': "match_one h d by_y lut cds (predicted ! i') (pds ! i') = Inr (r', n')"
      "\<forall>j. (i', j) \<in> set ms' \<longleftrightarrow> r' = Some j" by blast
    have "i' \<noteq> i" using that ni by auto
    then have "(i', j) \<in> set ms \<longleftrightarrow> (i', j) \<in> set ms'" for j
      by (auto simp: ms split: option.splits)
    with r' show ?thesis by auto
  qed
  have "fst ` set ms \<subseteq> set (i # is)" using sub by (auto simp: ms split: option.splits)
  moreover have "distinct (map fst ms)"
    using ih sub ni by (auto simp: ms split: option.splits)
  ultimately show ?case using one here others by auto
qed

lemma matchFeatures_unfold:
  assumes "matchFeatures cam C cur prev = Inr ms"
  shows "descriptorSizeBytes cur * 8 < 512"
    and "match_loop (imageHeight cam) (descriptorSizeBytes cur)
           (keypoints_by_y (keypointMeasurements cur))
           (corner_row_LUT (keypoints_by_y (keypointMeasurements cur)) (imageHeight cam))
           (descriptors cur)
           (map (predict_keypoint cam C) (keypointMeasurements prev))
           (descriptors prev) [0..<length (keypointMeasurements prev)] = Inr ms"
  using assms by (auto simp: matchFeatures_def Let_def split: if_splits)

lemma matchFeatures_matches:
  assumes "matchFeatures cam C cur prev = Inr ms"
  shows "distinct (map fst ms)"
    and "\<forall>(i, j)\<in>set ms. i < length (keypointMeasurements prev)
                          \<and> j < length (keypointMeasurements cur)"
proof -
  note ml = match_loop_result[OF matchFeatures_unfold(2)[OF assms] distinct_upt]
  show "distinct (map fst ms)" using ml by simp
  show "\<forall>(i, j)\<in>set ms. i < length (keypointMeasurements prev)
                          \<and> j < length (keypointMeasurements cur)"
  proof (clarify)
    fix i j assume ij: "(i, j) \<in> set ms"
    then have "fst (i, j) \<in> fst ` set ms" by (rule imageI)
    with ml have i: "i < length (keypointMeasurements prev)" by auto
    with ml obtain r n where
      "match_one (imageHeight cam) (descriptorSizeBytes cur)
           (keypoints_by_y (keypointMeasurements cur))
           (corner_row_LUT (keypoints_by_y (keypointMeasurements cur)) (imageHeight cam))
           (descriptors cur)
           (map (predict_keypoint cam C) (keypointMeasurements prev) ! i)
           (descriptors prev ! i) = Inr (r, n)" "\<forall>j. (i, j) \<in> set ms \<longleftrightarrow> r = Some j"
      by (metis atLeastLessThan_iff set_upt zero_le)
    with ij have "match_one (imageHeight cam) (descriptorSizeBytes cur)
           (keypoints_by_y (keypointMeasurements cur))
           (corner_row_LUT (keypoints_by_y (keypointMeasurements cur)) (imageHeight cam))
           (descriptors cur)
           (map (predict_keypoint cam C) (keypointMeasurements prev) ! i)
           (descriptors prev ! i) = Inr (Some j, n)" by simp
    from match_one_index_bound[OF this] i
    show "i < length (keypointMeasurements prev) \<and> j < length (keypointMeasurements cur)"
      by simp
  qed
qed



text \<open>
  The search can abort where the claim is silent. A prediction far above the image has its
  rows clamped to row 0, and a match found there fails the distance check of the loop.
\<close>

lemma match_one_aborts_far_above:
  "match_one 32 2 (keypoints_by_y [(15, 0)]) (corner_row_LUT (keypoints_by_y [(15, 0)]) 32)
     [[1, 2]] (10, - 9) [1, 2] = Inl MatchTooFar"
  by code_simp

section \<open>Admission\<close>

subsection \<open>Stage 1\<close>

lemma continue_step_Inr:
  assumes "continue_step cfg cam cur prev lens m st = Inr st'"
  shows "fst m < length (trackIds prev)" and "snd m < length (adm_track_ids st)"
    and "adm_track_ids st' = (adm_track_ids st)[snd m := trackIds prev ! fst m]"
    and "adm_track_lengths st' = (adm_track_lengths st)[snd m := lens ! fst m + 1]"
    and "trackIds prev ! fst m \<ge> 0 \<Longrightarrow>
           \<exists>b. compute_bin_index cfg cam (keypointMeasurements cur ! snd m) = Inr b
              \<and> adm_buckets st' = push_bucket (adm_buckets st) b
              \<and> candidates_new_tracks st' = candidates_new_tracks st @ [m]"
    and "\<not> trackIds prev ! fst m \<ge> 0 \<Longrightarrow>
           adm_buckets st' = adm_buckets st \<and> candidates_new_tracks st' = candidates_new_tracks st"
  using assms
  by (auto simp: continue_step_def Let_def accept_match_def split: if_splits sum.splits)

lemma continue_tracks_result:
  assumes "continue_tracks cfg cam cur prev lens ms st = Inr st'"
    and "length (adm_track_lengths st) = length (adm_track_ids st)"
  shows "length (adm_track_ids st') = length (adm_track_ids st)
    \<and> length (adm_track_lengths st') = length (adm_track_ids st)
    \<and> length (adm_buckets st') = length (adm_buckets st)
    \<and> (\<forall>j. j \<notin> snd ` set ms \<longrightarrow> adm_track_ids st' ! j = adm_track_ids st ! j
                                   \<and> adm_track_lengths st' ! j = adm_track_lengths st ! j)
    \<and> (\<forall>j\<in>snd ` set ms. \<exists>i. (i, j) \<in> set ms \<and> adm_track_ids st' ! j = trackIds prev ! i
                                   \<and> adm_track_lengths st' ! j = lens ! i + 1)
    \<and> set (candidates_new_tracks st') \<subseteq> set (candidates_new_tracks st) \<union> set ms
    \<and> (\<forall>m\<in>set ms. fst m < length (trackIds prev) \<and> snd m < length (adm_track_ids st))"
  using assms
proof (induction ms arbitrary: st)
  case Nil
  then show ?case by simp
next
  case (Cons m ms)
  from Cons.prems(1) obtain st1 where
    s1: "continue_step cfg cam cur prev lens m st = Inr st1" and
    rest: "continue_tracks cfg cam cur prev lens ms st1 = Inr st'"
    by (auto split: sum.splits)
  note e = continue_step_Inr[OF s1]
  have len1: "length (adm_track_lengths st1) = length (adm_track_ids st1)"
    using e(3,4) Cons.prems(2) by simp
  have ids1: "length (adm_track_ids st1) = length (adm_track_ids st)" using e(3) by simp
  from Cons.IH[OF rest len1] have
    ih1: "length (adm_track_ids st') = length (adm_track_ids st1)" and
    ih2: "length (adm_track_lengths st') = length (adm_track_ids st1)" and
    ih3: "length (adm_buckets st') = length (adm_buckets st1)" and
    ih4: "\<forall>j. j \<notin> snd ` set ms \<longrightarrow> adm_track_ids st' ! j = adm_track_ids st1 ! j
                                   \<and> adm_track_lengths st' ! j = adm_track_lengths st1 ! j" and
    ih5: "\<forall>j\<in>snd ` set ms. \<exists>i. (i, j) \<in> set ms \<and> adm_track_ids st' ! j = trackIds prev ! i
                                   \<and> adm_track_lengths st' ! j = lens ! i + 1" and
    ih6: "set (candidates_new_tracks st') \<subseteq> set (candidates_new_tracks st1) \<union> set ms" and
    ih7: "\<forall>m\<in>set ms. fst m < length (trackIds prev) \<and> snd m < length (adm_track_ids st1)"
    by blast+
  have cand1: "set (candidates_new_tracks st1) \<subseteq> set (candidates_new_tracks st) \<union> {m}"
    using e(5,6) by (cases "trackIds prev ! fst m \<ge> 0") auto
  have b1: "length (adm_buckets st1) = length (adm_buckets st)"
    using e(5,6) by (cases "trackIds prev ! fst m \<ge> 0") (auto simp: push_bucket_def)
  have c4: "\<forall>j. j \<notin> snd ` set (m # ms) \<longrightarrow> adm_track_ids st' ! j = adm_track_ids st ! j
                                   \<and> adm_track_lengths st' ! j = adm_track_lengths st ! j"
  proof (intro allI impI)
    fix j assume "j \<notin> snd ` set (m # ms)"
    then have "j \<noteq> snd m" "j \<notin> snd ` set ms" by auto
    with ih4 e(3,4) show "adm_track_ids st' ! j = adm_track_ids st ! j
                                   \<and> adm_track_lengths st' ! j = adm_track_lengths st ! j"
      by simp
  qed
  have c5: "\<forall>j\<in>snd ` set (m # ms). \<exists>i. (i, j) \<in> set (m # ms)
              \<and> adm_track_ids st' ! j = trackIds prev ! i
              \<and> adm_track_lengths st' ! j = lens ! i + 1"
  proof
    fix j assume j: "j \<in> snd ` set (m # ms)"
    show "\<exists>i. (i, j) \<in> set (m # ms) \<and> adm_track_ids st' ! j = trackIds prev ! i
                                   \<and> adm_track_lengths st' ! j = lens ! i + 1"
    proof (cases "j \<in> snd ` set ms")
      case True
      with ih5 show ?thesis by auto
    next
      case False
      with j have jm: "j = snd m" by auto
      have "adm_track_ids st' ! j = adm_track_ids st1 ! j"
        "adm_track_lengths st' ! j = adm_track_lengths st1 ! j"
        using ih4 False by simp_all
      moreover have "adm_track_ids st1 ! j = trackIds prev ! fst m"
        using e(2,3) jm by simp
      moreover have "adm_track_lengths st1 ! j = lens ! fst m + 1"
        using e(2,4) jm Cons.prems(2) by simp
      moreover have "(fst m, j) \<in> set (m # ms)" using jm by simp
      ultimately show ?thesis by metis
    qed
  qed
  have c6: "set (candidates_new_tracks st') \<subseteq> set (candidates_new_tracks st) \<union> set (m # ms)"
    using ih6 cand1 by auto
  have c7: "\<forall>m'\<in>set (m # ms). fst m' < length (trackIds prev)
              \<and> snd m' < length (adm_track_ids st)"
    using ih7 e(1,2) ids1 by auto
  show ?case using ih1 ih2 ih3 ids1 b1 c4 c5 c6 c7 by simp
qed

subsection \<open>The candidates for new tracks\<close>


lemma set_new_track_candidates:
  "set (new_track_candidates cur ms ids)
     = {(i, keypointScores cur ! snd (ms ! i)) | i. i < length ms \<and> ids ! snd (ms ! i) < 0}"
  by (auto simp: new_track_candidates_def)


lemma new_track_candidate_score:
  "c \<in> set (new_track_candidates cur ms ids) \<Longrightarrow>
     snd c = keypointScores cur ! snd (ms ! fst c) \<and> fst c < length ms
     \<and> ids ! snd (ms ! fst c) < 0"
  by (auto simp: set_new_track_candidates)

subsection \<open>Stage 3\<close>

lemma push_bucket_length: "length (push_bucket bs b) = length bs"
  by (simp add: push_bucket_def)

lemma push_bucket_nth:
  "b < length bs \<Longrightarrow>
     length (push_bucket bs b' ! b) = length (bs ! b) + (if b = b' then 1 else 0)"
  by (simp add: push_bucket_def nth_list_update)

lemma unconditional_step_Inr:
  assumes "unconditional_step cfg cam cur ms c st = Inr st'"
  shows "keypointScores cur ! snd (ms ! fst c) < kKeypointScoreThresholdUnconditional cfg
           \<Longrightarrow> st' = st"
    and "\<not> keypointScores cur ! snd (ms ! fst c) < kKeypointScoreThresholdUnconditional cfg
           \<Longrightarrow> \<exists>b. compute_bin_index cfg cam (keypointMeasurements cur ! snd (ms ! fst c)) = Inr b
                  \<and> st' = accept_match st b (ms ! fst c)"
  using assms by (auto simp: unconditional_step_def Let_def split: if_splits sum.splits)

lemma unconditional_loop_result:
  assumes "unconditional_loop cfg cam cur ms L st = Inr st'"
  shows "adm_track_ids st' = adm_track_ids st \<and> adm_track_lengths st' = adm_track_lengths st
    \<and> candidates_new_tracks st'
        = candidates_new_tracks st
          @ map (\<lambda>c. ms ! fst c)
              (filter (\<lambda>c. \<not> keypointScores cur ! snd (ms ! fst c)
                               < kKeypointScoreThresholdUnconditional cfg) L)
    \<and> length (adm_buckets st') = length (adm_buckets st)
    \<and> (\<forall>b<length (adm_buckets st).
          length (adm_buckets st' ! b)
            = length (adm_buckets st ! b)
              + length (filter (\<lambda>c. \<not> keypointScores cur ! snd (ms ! fst c)
                                         < kKeypointScoreThresholdUnconditional cfg
                                   \<and> compute_bin_index cfg cam
                                        (keypointMeasurements cur ! snd (ms ! fst c)) = Inr b) L))"
  using assms
proof (induction L arbitrary: st)
  case Nil
  then show ?case by simp
next
  case (Cons c L)
  from Cons.prems obtain st1 where
    s1: "unconditional_step cfg cam cur ms c st = Inr st1" and
    rest: "unconditional_loop cfg cam cur ms L st1 = Inr st'"
    by (auto split: sum.splits)
  note ih = Cons.IH[OF rest]
  show ?case
  proof (cases "keypointScores cur ! snd (ms ! fst c) < kKeypointScoreThresholdUnconditional cfg")
    case True
    from unconditional_step_Inr(1)[OF s1 True] have "st1 = st" .
    with ih True show ?thesis by simp
  next
    case False
    from unconditional_step_Inr(2)[OF s1 False] obtain b' where
      b': "compute_bin_index cfg cam (keypointMeasurements cur ! snd (ms ! fst c)) = Inr b'"
      and st1: "st1 = accept_match st b' (ms ! fst c)" by blast
    have l: "length (adm_buckets st1) = length (adm_buckets st)"
      by (simp add: st1 accept_match_def push_bucket_length)
    have n: "length (adm_buckets st1 ! b) = length (adm_buckets st ! b) + (if b = b' then 1 else 0)"
      if "b < length (adm_buckets st)" for b
      using push_bucket_nth[OF that] by (simp add: st1 accept_match_def)
    have ids: "adm_track_ids st1 = adm_track_ids st" "adm_track_lengths st1 = adm_track_lengths st"
      "candidates_new_tracks st1 = candidates_new_tracks st @ [ms ! fst c]"
      by (simp_all add: st1 accept_match_def)
    show ?thesis using ih False b' l n ids by auto
  qed
qed

subsection \<open>Stage 4\<close>

lemma strong_step_Inr:
  assumes "strong_step cfg cam cur ms c st = Inr st'"
  shows "keypointScores cur ! snd (ms ! fst c) < kKeypointScoreThresholdStrong cfg \<Longrightarrow> st' = st"
    and "\<not> keypointScores cur ! snd (ms ! fst c) < kKeypointScoreThresholdStrong cfg
           \<Longrightarrow> \<exists>b. compute_bin_index cfg cam (keypointMeasurements cur ! snd (ms ! fst c)) = Inr b
                  \<and> st' = (if length (adm_buckets st ! b) < num_pts_per_bucket cfg
                           then accept_match st b (ms ! fst c) else st)"
  using assms by (auto simp: strong_step_def Let_def split: if_splits sum.splits)


lemma strong_loop_result:
  assumes "strong_loop cfg cam cur ms L st = Inr st'"
  shows "adm_track_ids st' = adm_track_ids st \<and> adm_track_lengths st' = adm_track_lengths st
    \<and> length (adm_buckets st') = length (adm_buckets st)
    \<and> set (candidates_new_tracks st')
        \<subseteq> set (candidates_new_tracks st) \<union> (\<lambda>c. ms ! fst c) ` set L"
  using assms
proof (induction L arbitrary: st)
  case Nil
  then show ?case by simp
next
  case (Cons c L)
  from Cons.prems obtain st1 where
    s1: "strong_step cfg cam cur ms c st = Inr st1" and
    rest: "strong_loop cfg cam cur ms L st1 = Inr st'"
    by (auto split: sum.splits)
  note ih = Cons.IH[OF rest]
  have "st1 = st \<or> (\<exists>b. st1 = accept_match st b (ms ! fst c))"
  proof (cases "keypointScores cur ! snd (ms ! fst c) < kKeypointScoreThresholdStrong cfg")
    case True
    from strong_step_Inr(1)[OF s1 True] show ?thesis by simp
  next
    case False
    from strong_step_Inr(2)[OF s1 False] obtain b where
      "st1 = (if length (adm_buckets st ! b) < num_pts_per_bucket cfg
              then accept_match st b (ms ! fst c) else st)" by blast
    then show ?thesis by (cases "length (adm_buckets st ! b) < num_pts_per_bucket cfg") auto
  qed
  then show ?case
  proof
    assume "st1 = st"
    with ih show ?thesis by auto
  next
    assume "\<exists>b. st1 = accept_match st b (ms ! fst c)"
    then obtain b where st1: "st1 = accept_match st b (ms ! fst c)" by blast
    have "adm_track_ids st1 = adm_track_ids st" "adm_track_lengths st1 = adm_track_lengths st"
      "length (adm_buckets st1) = length (adm_buckets st)"
      "candidates_new_tracks st1 = candidates_new_tracks st @ [ms ! fst c]"
      by (simp_all add: st1 accept_match_def push_bucket_length)
    with ih show ?thesis by auto
  qed
qed

subsection \<open>The three stages together\<close>

lemma admission_unfold:
  assumes "admission cfg cam cur prev lens ms = Inr final"
  obtains st1 st2 where
    "continue_tracks cfg cam cur prev lens ms
       (admission_start cfg (length (keypointMeasurements cur))) = Inr st1"
    "unconditional_loop cfg cam cur ms
       (unconditional_part cfg (new_track_candidates cur ms (adm_track_ids st1))) st1 = Inr st2"
    "strong_loop cfg cam cur ms
       (strong_part cfg (new_track_candidates cur ms (adm_track_ids st1))) st2 = Inr final"
proof -
  let ?c = "continue_tracks cfg cam cur prev lens ms
       (admission_start cfg (length (keypointMeasurements cur)))"
  obtain st1 where a: "?c = Inr st1"
    using assms by (cases ?c) (simp_all add: admission_def)
  let ?u = "unconditional_loop cfg cam cur ms
       (unconditional_part cfg (new_track_candidates cur ms (adm_track_ids st1))) st1"
  obtain st2 where b: "?u = Inr st2"
    using assms a by (cases ?u) (simp_all add: admission_def Let_def)
  have c: "strong_loop cfg cam cur ms
       (strong_part cfg (new_track_candidates cur ms (adm_track_ids st1))) st2 = Inr final"
    using assms a b by (simp add: admission_def Let_def)
  show thesis using that[OF a b c] .
qed

lemma admission_start_fields:
  "length (adm_track_ids (admission_start cfg n)) = n"
  "length (adm_track_lengths (admission_start cfg n)) = n"
  "length (adm_buckets (admission_start cfg n))
     = kNumberOfTrackingBuckets cfg * kNumberOfTrackingBuckets cfg"
  "candidates_new_tracks (admission_start cfg n) = []"
  "j < n \<Longrightarrow> adm_track_ids (admission_start cfg n) ! j = -1"
  "j < n \<Longrightarrow> adm_track_lengths (admission_start cfg n) ! j = 0"
  by (simp_all add: admission_start_def)




lemma set_unconditional_part: "set (unconditional_part cfg cands) \<subseteq> set cands"
  by (simp add: unconditional_part_def set_take_subset)

lemma set_strong_part: "set (strong_part cfg cands) \<subseteq> set cands"
  unfolding strong_part_def Let_def
  by (meson set_take_subset set_drop_subset subset_trans)









section \<open>The ledger and addFrame\<close>

subsection \<open>The ledger\<close>

lemma ledger_step_Inr:
  assumes "ledger_step m st = Inr st'"
  shows "led_current_ids st ! snd m \<noteq> -1 \<Longrightarrow> st' = st"
    and "led_current_ids st ! snd m = -1 \<Longrightarrow>
           fst m < length (led_previous_ids st) \<and> led_previous_ids st ! fst m = -1
           \<and> st' = st\<lparr>led_track_id := led_track_id st + 1,
                       led_current_ids := (led_current_ids st)[snd m := led_track_id st + 1],
                       led_previous_ids := (led_previous_ids st)[fst m := led_track_id st + 1],
                       led_track_lengths := (led_track_lengths st)[snd m := 2]\<rparr>"
  using assms by (auto simp: ledger_step_def Let_def split: if_splits)

lemma assign_new_ids_result:
  assumes "assign_new_ids acc st = Inr st'"
    and "\<forall>m\<in>set acc. snd m < length (led_current_ids st)"
    and "length (led_track_lengths st) = length (led_current_ids st)"
    and "-1 \<le> led_track_id st"
  shows "length (led_current_ids st') = length (led_current_ids st)
    \<and> length (led_track_lengths st') = length (led_current_ids st)
    \<and> length (led_previous_ids st') = length (led_previous_ids st)
    \<and> led_track_id st \<le> led_track_id st'
    \<and> (\<forall>j<length (led_current_ids st).
          (led_current_ids st' ! j = led_current_ids st ! j
             \<and> led_track_lengths st' ! j = led_track_lengths st ! j)
          \<or> (led_current_ids st ! j = -1 \<and> j \<in> snd ` set acc
             \<and> led_track_id st < led_current_ids st' ! j
             \<and> led_current_ids st' ! j \<le> led_track_id st'
             \<and> led_track_lengths st' ! j = 2))"
  using assms
proof (induction acc arbitrary: st)
  case Nil
  then show ?case by simp
next
  case (Cons m acc)
  from Cons.prems(1) obtain st1 where
    s1: "ledger_step m st = Inr st1" and rest: "assign_new_ids acc st1 = Inr st'"
    by (auto split: sum.splits)
  show ?case
  proof (cases "led_current_ids st ! snd m = -1")
    case False
    from ledger_step_Inr(1)[OF s1 False] have e: "st1 = st" .
    from Cons.IH[OF rest[unfolded e]] Cons.prems(2,3,4)
    show ?thesis by auto
  next
    case True
    from ledger_step_Inr(2)[OF s1 True] have
      e: "st1 = st\<lparr>led_track_id := led_track_id st + 1,
                       led_current_ids := (led_current_ids st)[snd m := led_track_id st + 1],
                       led_previous_ids := (led_previous_ids st)[fst m := led_track_id st + 1],
                       led_track_lengths := (led_track_lengths st)[snd m := 2]\<rparr>"
      by simp
    have l1: "length (led_current_ids st1) = length (led_current_ids st)"
      "length (led_track_lengths st1) = length (led_current_ids st)"
      "length (led_previous_ids st1) = length (led_previous_ids st)"
      "led_track_id st1 = led_track_id st + 1"
      using Cons.prems(3) by (simp_all add: e)
    have p2: "\<forall>m\<in>set acc. snd m < length (led_current_ids st1)"
      using Cons.prems(2) l1 by simp
    have p3: "length (led_track_lengths st1) = length (led_current_ids st1)" using l1 by simp
    have p4: "-1 \<le> led_track_id st1" using l1 Cons.prems(4) by simp
    from Cons.IH[OF rest p2 p3 p4] have
      ih1: "length (led_current_ids st') = length (led_current_ids st1)"
        "length (led_track_lengths st') = length (led_current_ids st1)"
        "length (led_previous_ids st') = length (led_previous_ids st1)"
        "led_track_id st1 \<le> led_track_id st'" and
      ih2: "\<forall>j<length (led_current_ids st1).
          (led_current_ids st' ! j = led_current_ids st1 ! j
             \<and> led_track_lengths st' ! j = led_track_lengths st1 ! j)
          \<or> (led_current_ids st1 ! j = -1 \<and> j \<in> snd ` set acc
             \<and> led_track_id st1 < led_current_ids st' ! j
             \<and> led_current_ids st' ! j \<le> led_track_id st'
             \<and> led_track_lengths st' ! j = 2)"
      by blast+
    have jm: "snd m < length (led_current_ids st)" using Cons.prems(2) by simp
    have each: "(led_current_ids st' ! j = led_current_ids st ! j
             \<and> led_track_lengths st' ! j = led_track_lengths st ! j)
          \<or> (led_current_ids st ! j = -1 \<and> j \<in> snd ` set (m # acc)
             \<and> led_track_id st < led_current_ids st' ! j
             \<and> led_current_ids st' ! j \<le> led_track_id st'
             \<and> led_track_lengths st' ! j = 2)"
      if j: "j < length (led_current_ids st)" for j
    proof (cases "j = snd m")
      case False
      have same: "led_current_ids st1 ! j = led_current_ids st ! j"
        "led_track_lengths st1 ! j = led_track_lengths st ! j"
        using False by (simp_all add: e)
      from ih2 j l1 have "(led_current_ids st' ! j = led_current_ids st1 ! j
             \<and> led_track_lengths st' ! j = led_track_lengths st1 ! j)
          \<or> (led_current_ids st1 ! j = -1 \<and> j \<in> snd ` set acc
             \<and> led_track_id st1 < led_current_ids st' ! j
             \<and> led_current_ids st' ! j \<le> led_track_id st'
             \<and> led_track_lengths st' ! j = 2)" by simp
      then show ?thesis unfolding same using l1(4) by auto
    next
      case jeq: True
      have new: "led_current_ids st1 ! j = led_track_id st + 1" "led_track_lengths st1 ! j = 2"
        using jeq jm Cons.prems(3) by (simp_all add: e)
      have "led_current_ids st1 ! j \<noteq> -1" using new Cons.prems(4) by simp
      with ih2 j l1 have "led_current_ids st' ! j = led_current_ids st1 ! j"
        "led_track_lengths st' ! j = led_track_lengths st1 ! j" by auto
      then have "led_current_ids st' ! j = led_track_id st + 1" "led_track_lengths st' ! j = 2"
        using new by simp_all
      moreover have "led_track_id st + 1 \<le> led_track_id st'" using ih1(4) l1(4) by simp
      moreover have "j \<in> snd ` set (m # acc)" using jeq by simp
      ultimately show ?thesis using True jeq by simp
    qed
    show ?thesis using ih1 l1 each by simp
  qed
qed

subsection \<open>What the admission hands to the ledger\<close>

lemma admission_result:
  assumes adm: "admission cfg cam cur prev lens ms = Inr final"
  shows "length (adm_track_ids final) = length (keypointMeasurements cur)
    \<and> length (adm_track_lengths final) = length (keypointMeasurements cur)
    \<and> (\<forall>j<length (keypointMeasurements cur). j \<notin> snd ` set ms \<longrightarrow>
          adm_track_ids final ! j = -1 \<and> adm_track_lengths final ! j = 0)
    \<and> (\<forall>j\<in>snd ` set ms. \<exists>i. (i, j) \<in> set ms
          \<and> adm_track_ids final ! j = trackIds prev ! i
          \<and> adm_track_lengths final ! j = lens ! i + 1)
    \<and> set (candidates_new_tracks final) \<subseteq> set ms
    \<and> (\<forall>m\<in>set ms. fst m < length (trackIds prev)
                    \<and> snd m < length (keypointMeasurements cur))"
proof -
  let ?n = "length (keypointMeasurements cur)"
  from admission_unfold[OF adm] obtain st1 st2 where
    c: "continue_tracks cfg cam cur prev lens ms (admission_start cfg ?n) = Inr st1" and
    u: "unconditional_loop cfg cam cur ms
       (unconditional_part cfg (new_track_candidates cur ms (adm_track_ids st1))) st1 = Inr st2" and
    s: "strong_loop cfg cam cur ms
       (strong_part cfg (new_track_candidates cur ms (adm_track_ids st1))) st2 = Inr final"
    by blast
  let ?cands = "new_track_candidates cur ms (adm_track_ids st1)"
  have l: "length (adm_track_lengths (admission_start cfg ?n))
             = length (adm_track_ids (admission_start cfg ?n))"
    by (simp add: admission_start_fields)
  note r1 = continue_tracks_result[OF c l, unfolded admission_start_fields]
  note r2 = unconditional_loop_result[OF u]
  note r3 = strong_loop_result[OF s]
  have ids: "adm_track_ids final = adm_track_ids st1"
    and lens: "adm_track_lengths final = adm_track_lengths st1"
    using r2 r3 by simp_all
  have inms: "ms ! fst c \<in> set ms" if "c \<in> set ?cands" for c
    using new_track_candidate_score[OF that] by simp
  have a1: "set (candidates_new_tracks st1) \<subseteq> set ms" using r1 by simp
  have a2: "set (candidates_new_tracks st2) \<subseteq> set ms"
  proof -
    have "set (candidates_new_tracks st2)
            \<subseteq> set (candidates_new_tracks st1)
              \<union> (\<lambda>c. ms ! fst c) ` set (unconditional_part cfg ?cands)"
      using r2 by auto
    also have "\<dots> \<subseteq> set ms"
      using a1 inms set_unconditional_part[of cfg ?cands] by auto
    finally show ?thesis .
  qed
  have a3: "set (candidates_new_tracks final) \<subseteq> set ms"
  proof -
    have "set (candidates_new_tracks final)
            \<subseteq> set (candidates_new_tracks st2) \<union> (\<lambda>c. ms ! fst c) ` set (strong_part cfg ?cands)"
      using r3 by simp
    also have "\<dots> \<subseteq> set ms"
      using a2 inms set_strong_part[of cfg ?cands] by auto
    finally show ?thesis .
  qed
  have un: "\<forall>j<?n. j \<notin> snd ` set ms \<longrightarrow>
          adm_track_ids final ! j = -1 \<and> adm_track_lengths final ! j = 0"
    using r1 unfolding ids lens by (simp add: admission_start_fields)
  show ?thesis using r1 a3 un unfolding ids lens by simp
qed

lemma track_unfold:
  assumes "track cfg trk cur prev C = Inr w"
  obtains ms adm led where
    "hardwareTimestamp prev < hardwareTimestamp cur"
    "matchFeatures (camera trk) C cur prev = Inr ms"
    "admission cfg (camera trk) cur prev (previous_track_lengths trk) ms = Inr adm"
    "assign_new_ids (candidates_new_tracks adm)
       \<lparr>led_current_ids = adm_track_ids adm, led_previous_ids = trackIds prev,
        led_track_id = current_track_id trk, led_track_lengths = adm_track_lengths adm\<rparr>
       = Inr led"
    "w = \<lparr>world_tracker = trk\<lparr>previous_track_lengths := led_track_lengths led,
                                 current_track_id := led_track_id led,
                                 previous_frame_ptr :=
                                   Some (cur\<lparr>trackIds := led_current_ids led\<rparr>)\<rparr>,
           world_current = cur\<lparr>trackIds := led_current_ids led\<rparr>,
           world_previous = Some (prev\<lparr>trackIds := led_previous_ids led\<rparr>)\<rparr>"
proof -
  have checks: "hardwareTimestamp prev < hardwareTimestamp cur" "hasDescriptors cur"
    "descriptorRows cur = descriptorSizeBytes cur"
    "length (keypointMeasurements cur) = length (descriptors cur)"
    using assms by (auto simp: track_def Let_def split: if_splits)
  let ?m = "matchFeatures (camera trk) C cur prev"
  obtain ms where m: "?m = Inr ms"
    using assms checks by (cases ?m) (simp_all add: track_def Let_def)
  let ?a = "admission cfg (camera trk) cur prev (previous_track_lengths trk) ms"
  obtain adm where a: "?a = Inr adm"
    using assms checks m by (cases ?a) (simp_all add: track_def Let_def)
  let ?l = "assign_new_ids (candidates_new_tracks adm)
       \<lparr>led_current_ids = adm_track_ids adm, led_previous_ids = trackIds prev,
        led_track_id = current_track_id trk, led_track_lengths = adm_track_lengths adm\<rparr>"
  obtain led where l: "?l = Inr led"
    using assms checks m a by (cases ?l) (auto simp: track_def Let_def)
  have w: "w = \<lparr>world_tracker = trk\<lparr>previous_track_lengths := led_track_lengths led,
                                 current_track_id := led_track_id led,
                                 previous_frame_ptr :=
                                   Some (cur\<lparr>trackIds := led_current_ids led\<rparr>)\<rparr>,
           world_current = cur\<lparr>trackIds := led_current_ids led\<rparr>,
           world_previous = Some (prev\<lparr>trackIds := led_previous_ids led\<rparr>)\<rparr>"
    using assms checks m a l by (simp add: track_def Let_def)
  show thesis using that[OF checks(1) m a l w] .
qed

lemma addFrame_tracking:
  assumes "addFrame cfg trk cur C = Inr w" and "previous_frame_ptr trk = Some prev"
    and "keypointMeasurements cur \<noteq> []"
  shows "track cfg trk cur prev C = Inr w"
  using assms by (auto simp: addFrame_def split: if_splits)

subsection \<open>The bounds on the ids are kept\<close>

text \<open>
  A call that returns leaves the tracker holding the current frame, with every id of that
  frame between \<open>-1\<close> and the id counter, and the counter not below its old value; so the
  bounds assumed of the previous frame below hold after every call, starting from a new
  tracker with a counter that is not negative.
\<close>

lemma addFrame_invariant:
  assumes ok: "addFrame cfg trk cur C = Inr w"
    and inv: "\<forall>prev. previous_frame_ptr trk = Some prev
                \<longrightarrow> list_all (\<lambda>t. -1 \<le> t \<and> t \<le> current_track_id trk) (trackIds prev)"
    and cnt: "0 \<le> current_track_id trk"
  shows "current_track_id trk \<le> current_track_id (world_tracker w)
     \<and> previous_frame_ptr (world_tracker w) = Some (world_current w)
     \<and> list_all (\<lambda>t. -1 \<le> t \<and> t \<le> current_track_id (world_tracker w))
         (trackIds (world_current w))"
proof (cases "previous_frame_ptr trk = None \<or> keypointMeasurements cur = []")
  case True
  from ok have h: "hasKeypointMeasurements cur" by (simp add: addFrame_def split: if_splits)
  from True h ok have "w = initialize trk cur"
    by (auto simp: addFrame_def split: option.splits)
  then show ?thesis using cnt by (simp add: initialize_def Let_def list_all_length)
next
  case False
  then obtain prev where prev: "previous_frame_ptr trk = Some prev"
    and kps: "keypointMeasurements cur \<noteq> []" by auto
  let ?n = "length (keypointMeasurements cur)"
  let ?c = "current_track_id trk"
  from track_unfold[OF addFrame_tracking[OF ok prev kps]] obtain ms adm led where
    a: "admission cfg (camera trk) cur prev (previous_track_lengths trk) ms = Inr adm" and
    l: "assign_new_ids (candidates_new_tracks adm)
       \<lparr>led_current_ids = adm_track_ids adm, led_previous_ids = trackIds prev,
        led_track_id = ?c, led_track_lengths = adm_track_lengths adm\<rparr> = Inr led" and
    w: "w = \<lparr>world_tracker = trk\<lparr>previous_track_lengths := led_track_lengths led,
                                 current_track_id := led_track_id led,
                                 previous_frame_ptr :=
                                   Some (cur\<lparr>trackIds := led_current_ids led\<rparr>)\<rparr>,
           world_current = cur\<lparr>trackIds := led_current_ids led\<rparr>,
           world_previous = Some (prev\<lparr>trackIds := led_previous_ids led\<rparr>)\<rparr>"
    by blast
  from admission_result[OF a] have
    a1: "length (adm_track_ids adm) = ?n" "length (adm_track_lengths adm) = ?n" and
    a2: "\<forall>j<?n. j \<notin> snd ` set ms \<longrightarrow>
          adm_track_ids adm ! j = -1 \<and> adm_track_lengths adm ! j = 0" and
    a3: "\<forall>j\<in>snd ` set ms. \<exists>i. (i, j) \<in> set ms
          \<and> adm_track_ids adm ! j = trackIds prev ! i
          \<and> adm_track_lengths adm ! j = previous_track_lengths trk ! i + 1" and
    a4: "set (candidates_new_tracks adm) \<subseteq> set ms" and
    a5: "\<forall>m\<in>set ms. fst m < length (trackIds prev) \<and> snd m < ?n"
    by blast+
  let ?st = "\<lparr>led_current_ids = adm_track_ids adm, led_previous_ids = trackIds prev,
        led_track_id = ?c, led_track_lengths = adm_track_lengths adm\<rparr>"
  have p2: "\<forall>m\<in>set (candidates_new_tracks adm). snd m < length (led_current_ids ?st)"
    using a4 a5 a1 by auto
  have p3: "length (led_track_lengths ?st) = length (led_current_ids ?st)" using a1 by simp
  have p4: "-1 \<le> led_track_id ?st" using cnt by simp
  from assign_new_ids_result[OF l p2 p3 p4] have
    l1: "length (led_current_ids led) = ?n" and
    l3: "?c \<le> led_track_id led" and
    l2: "\<forall>j<?n.
          (led_current_ids led ! j = adm_track_ids adm ! j
             \<and> led_track_lengths led ! j = adm_track_lengths adm ! j)
          \<or> (adm_track_ids adm ! j = -1 \<and> j \<in> snd ` set (candidates_new_tracks adm)
             \<and> ?c < led_current_ids led ! j
             \<and> led_current_ids led ! j \<le> led_track_id led
             \<and> led_track_lengths led ! j = 2)"
    using a1 by simp_all
  from inv prev have pinv: "list_all (\<lambda>t. -1 \<le> t \<and> t \<le> ?c) (trackIds prev)" by simp
  have before: "-1 \<le> adm_track_ids adm ! j \<and> adm_track_ids adm ! j \<le> ?c" if j: "j < ?n" for j
  proof (cases "j \<in> snd ` set ms")
    case False
    with a2 j cnt show ?thesis by simp
  next
    case True
    with a3 obtain i where i: "(i, j) \<in> set ms" "adm_track_ids adm ! j = trackIds prev ! i"
      by blast
    from a5 i(1) have "i < length (trackIds prev)" by fastforce
    with pinv i(2) show ?thesis by (simp add: list_all_length)
  qed
  have "-1 \<le> led_current_ids led ! j \<and> led_current_ids led ! j \<le> led_track_id led"
    if j: "j < ?n" for j
    using l2 j before[OF j] l3 cnt by auto
  then have "list_all (\<lambda>t. -1 \<le> t \<and> t \<le> led_track_id led) (led_current_ids led)"
    using l1 by (simp add: list_all_length)
  then show ?thesis using l3 by (simp add: w)
qed

section \<open>Track lengths after a frame\<close>




section \<open>Several previous keypoints matched to one current keypoint\<close>

text \<open>
  Claim C3. The call is not total on well-formed input. The tracker has seen two frames;
  its previous frame holds a keypoint on track 1 and an untracked keypoint with a
  descriptor one bit off, two pixels to the right and one row below. The third frame is
  later, has keypoint measurements and descriptor rows equal to the descriptor width, and
  holds one keypoint. Both previous keypoints are matched to it. The first loop records
  the first match as a continued track and then overwrites the id of the current keypoint
  with \<open>-1\<close> from the second match, so the last loop takes the first match for a new track
  and its check that the previous id is \<open>-1\<close> fails. At that point the ids of both
  frames, the lengths and the counter are as they were before the call.
\<close>

theorem many_to_one_match_aborts:
  "map_option (\<lambda>f. (hardwareTimestamp f, trackIds f)) (previous_frame_ptr two_frame_tracker)
     = Some (2, [1, -1])
   \<and> previous_track_lengths two_frame_tracker = [2, 0]
   \<and> current_track_id two_frame_tracker = 1
   \<and> hardwareTimestamp (example_frame 3 [(10, 10)] [[1, 2]] [5]) = 3
   \<and> hasKeypointMeasurements (example_frame 3 [(10, 10)] [[1, 2]] [5])
   \<and> hasDescriptors (example_frame 3 [(10, 10)] [[1, 2]] [5])
   \<and> descriptorRows (example_frame 3 [(10, 10)] [[1, 2]] [5])
       = descriptorSizeBytes (example_frame 3 [(10, 10)] [[1, 2]] [5])
   \<and> length (keypointMeasurements (example_frame 3 [(10, 10)] [[1, 2]] [5]))
       = length (descriptors (example_frame 3 [(10, 10)] [[1, 2]] [5]))
   \<and> matchFeatures (camera two_frame_tracker) identity3
        (example_frame 3 [(10, 10)] [[1, 2]] [5]) (the (previous_frame_ptr two_frame_tracker))
       = Inr [(0, 0), (1, 0)]
   \<and> map_sum (\<lambda>(e, w). (e, trackIds (world_current w), map_option trackIds (world_previous w),
                  previous_track_lengths (world_tracker w), current_track_id (world_tracker w),
                  map_option trackIds (previous_frame_ptr (world_tracker w))))
         (\<lambda>w. ())
        (addFrame example_config two_frame_tracker (example_frame 3 [(10, 10)] [[1, 2]] [5])
           identity3)
       = Inl (NewTrackHasPreviousId, [-1], Some [1, -1], [2, 0], 1, Some [1, -1])"
  by code_simp

subsection \<open>An abort leaves the state as it was\<close>

text \<open>
  The list handed to the last loop holds the matches of continued tracks first, then the
  accepted candidates. On a match of a continued track the loop either changes nothing or
  aborts, and once all of these are passed no candidate can abort: its previous id is
  \<open>-1\<close> unless an earlier entry has given its current keypoint an id. So the loop aborts,
  if at all, before its first write, and every abort of \<^verbatim>\<open>addFrame\<close> returns the tracker and
  both frames unchanged, given previous ids of at least \<open>-1\<close> and a counter of at least
  \<open>-1\<close>.
\<close>

lemma continue_tracks_candidates:
  assumes "continue_tracks cfg cam cur prev lens ms st = Inr st'"
  shows "candidates_new_tracks st'
           = candidates_new_tracks st @ filter (\<lambda>m. 0 \<le> trackIds prev ! fst m) ms"
  using assms
proof (induction ms arbitrary: st)
  case Nil
  then show ?case by simp
next
  case (Cons m ms)
  from Cons.prems obtain st1 where
    s1: "continue_step cfg cam cur prev lens m st = Inr st1" and
    rest: "continue_tracks cfg cam cur prev lens ms st1 = Inr st'"
    by (auto split: sum.splits)
  note e = continue_step_Inr(5,6)[OF s1]
  show ?case
  proof (cases "0 \<le> trackIds prev ! fst m")
    case True
    with e(1) have "candidates_new_tracks st1 = candidates_new_tracks st @ [m]" by blast
    with Cons.IH[OF rest] True show ?thesis by simp
  next
    case False
    with e(2) have "candidates_new_tracks st1 = candidates_new_tracks st" by blast
    with Cons.IH[OF rest] False show ?thesis by simp
  qed
qed

lemma strong_loop_candidates:
  assumes "strong_loop cfg cam cur ms L st = Inr st'"
  shows "\<exists>xs. candidates_new_tracks st' = candidates_new_tracks st @ xs
            \<and> set xs \<subseteq> (\<lambda>c. ms ! fst c) ` set L"
  using assms
proof (induction L arbitrary: st)
  case Nil
  then show ?case by simp
next
  case (Cons c L)
  from Cons.prems obtain st1 where
    s1: "strong_step cfg cam cur ms c st = Inr st1" and
    rest: "strong_loop cfg cam cur ms L st1 = Inr st'"
    by (auto split: sum.splits)
  from Cons.IH[OF rest] obtain xs where
    xs: "candidates_new_tracks st' = candidates_new_tracks st1 @ xs"
      "set xs \<subseteq> (\<lambda>c. ms ! fst c) ` set L" by blast
  have "candidates_new_tracks st1 = candidates_new_tracks st
      \<or> candidates_new_tracks st1 = candidates_new_tracks st @ [ms ! fst c]"
    using s1 by (auto simp: strong_step_def Let_def accept_match_def split: if_splits sum.splits)
  then show ?case
  proof
    assume "candidates_new_tracks st1 = candidates_new_tracks st"
    with xs show ?thesis by (intro exI[of _ xs]) auto
  next
    assume "candidates_new_tracks st1 = candidates_new_tracks st @ [ms ! fst c]"
    with xs show ?thesis by (intro exI[of _ "(ms ! fst c) # xs"]) auto
  qed
qed

lemma admission_candidates:
  assumes a: "admission cfg cam cur prev lens ms = Inr adm"
  shows "\<exists>new. candidates_new_tracks adm = filter (\<lambda>m. 0 \<le> trackIds prev ! fst m) ms @ new
            \<and> (\<forall>m\<in>set new. m \<in> set ms \<and> adm_track_ids adm ! snd m < 0)"
proof -
  from a obtain st1 st2 where
    c: "continue_tracks cfg cam cur prev lens ms
       (admission_start cfg (length (keypointMeasurements cur))) = Inr st1" and
    u: "unconditional_loop cfg cam cur ms
       (unconditional_part cfg (new_track_candidates cur ms (adm_track_ids st1))) st1 = Inr st2" and
    s: "strong_loop cfg cam cur ms
       (strong_part cfg (new_track_candidates cur ms (adm_track_ids st1))) st2 = Inr adm"
    by (rule admission_unfold)
  let ?cands = "new_track_candidates cur ms (adm_track_ids st1)"
  let ?cont = "filter (\<lambda>m. 0 \<le> trackIds prev ! fst m) ms"
  let ?us = "map (\<lambda>c. ms ! fst c)
              (filter (\<lambda>c. \<not> keypointScores cur ! snd (ms ! fst c)
                               < kKeypointScoreThresholdUnconditional cfg)
                 (unconditional_part cfg ?cands))"
  have c1: "candidates_new_tracks st1 = ?cont"
    using continue_tracks_candidates[OF c] by (simp add: admission_start_fields)
  from unconditional_loop_result[OF u] have
    u1: "adm_track_ids st2 = adm_track_ids st1"
      "candidates_new_tracks st2 = candidates_new_tracks st1 @ ?us" by simp_all
  from strong_loop_result[OF s] have s1: "adm_track_ids adm = adm_track_ids st2" by simp
  from strong_loop_candidates[OF s] obtain xs where
    xs: "candidates_new_tracks adm = candidates_new_tracks st2 @ xs"
      "set xs \<subseteq> (\<lambda>c. ms ! fst c) ` set (strong_part cfg ?cands)" by blast
  have ids: "adm_track_ids adm = adm_track_ids st1" using s1 u1 by simp
  have cand: "ms ! fst c \<in> set ms \<and> adm_track_ids adm ! snd (ms ! fst c) < 0"
    if "c \<in> set ?cands" for c
    using new_track_candidate_score[OF that] by (simp add: ids)
  have "\<forall>m\<in>set (?us @ xs). m \<in> set ms \<and> adm_track_ids adm ! snd m < 0"
  proof
    fix m assume "m \<in> set (?us @ xs)"
    then have "m \<in> (\<lambda>c. ms ! fst c) ` set (unconditional_part cfg ?cands)
             \<or> m \<in> (\<lambda>c. ms ! fst c) ` set (strong_part cfg ?cands)"
      using xs(2) by auto
    then obtain c where "c \<in> set ?cands" "m = ms ! fst c"
      using set_unconditional_part[of cfg ?cands] set_strong_part[of cfg ?cands] by blast
    with cand show "m \<in> set ms \<and> adm_track_ids adm ! snd m < 0" by simp
  qed
  moreover have "candidates_new_tracks adm = ?cont @ (?us @ xs)"
    using xs(1) u1(2) c1 by simp
  ultimately show ?thesis by blast
qed

lemma assign_new_ids_continued:
  assumes "\<forall>m\<in>set cont. led_previous_ids st ! fst m \<noteq> -1
                         \<and> fst m < length (led_previous_ids st)"
  shows "assign_new_ids (cont @ rest) st
           = (if \<exists>m\<in>set cont. led_current_ids st ! snd m = -1
              then Inl (NewTrackHasPreviousId, st) else assign_new_ids rest st)"
  using assms
proof (induction cont)
  case Nil
  then show ?case by simp
next
  case (Cons m cont)
  have s: "ledger_step m st
             = (if led_current_ids st ! snd m = -1 then Inl NewTrackHasPreviousId else Inr st)"
    using Cons.prems by (simp add: ledger_step_def Let_def)
  show ?case using Cons s by simp
qed

lemma assign_new_ids_new_returns:
  assumes "\<forall>m\<in>set new. \<forall>m'\<in>set new. fst m = fst m' \<longrightarrow> m = m'"
    and "\<forall>m\<in>set new. fst m < length (led_previous_ids st)
                       \<and> snd m < length (led_current_ids st)"
    and "\<forall>m\<in>set new. led_previous_ids st ! fst m = -1 \<or> led_current_ids st ! snd m \<noteq> -1"
    and "-1 \<le> led_track_id st"
  shows "\<exists>st'. assign_new_ids new st = Inr st'"
  using assms
proof (induction new arbitrary: st)
  case Nil
  then show ?case by simp
next
  case (Cons m new)
  have d: "\<forall>m\<in>set new. \<forall>m'\<in>set new. fst m = fst m' \<longrightarrow> m = m'"
    using Cons.prems(1) by simp
  show ?case
  proof (cases "led_current_ids st ! snd m = -1")
    case False
    then have s: "ledger_step m st = Inr st" by (simp add: ledger_step_def Let_def)
    from Cons.IH[OF d, of st] Cons.prems(2,3,4) s show ?thesis by simp
  next
    case True
    let ?st1 = "st\<lparr>led_track_id := led_track_id st + 1,
                   led_current_ids := (led_current_ids st)[snd m := led_track_id st + 1],
                   led_previous_ids := (led_previous_ids st)[fst m := led_track_id st + 1],
                   led_track_lengths := (led_track_lengths st)[snd m := 2]\<rparr>"
    from True Cons.prems(3) have pm: "led_previous_ids st ! fst m = -1" by simp
    from Cons.prems(2) have rng: "fst m < length (led_previous_ids st)"
      "snd m < length (led_current_ids st)" by simp_all
    have s: "ledger_step m st = Inr ?st1"
      using True pm rng by (simp add: ledger_step_def Let_def)
    have p2: "\<forall>m'\<in>set new. fst m' < length (led_previous_ids ?st1)
                       \<and> snd m' < length (led_current_ids ?st1)"
      using Cons.prems(2) by simp
    have p3: "\<forall>m'\<in>set new. led_previous_ids ?st1 ! fst m' = -1
                \<or> led_current_ids ?st1 ! snd m' \<noteq> -1"
    proof
      fix m' assume m': "m' \<in> set new"
      have n: "led_track_id st + 1 \<noteq> -1" using Cons.prems(4) by simp
      show "led_previous_ids ?st1 ! fst m' = -1 \<or> led_current_ids ?st1 ! snd m' \<noteq> -1"
      proof (cases "snd m' = snd m")
        case True
        then show ?thesis using rng n by simp
      next
        case sn: False
        have "fst m' \<noteq> fst m"
        proof
          assume "fst m' = fst m"
          with Cons.prems(1) m' have "m' = m" by simp
          with sn show False by simp
        qed
        moreover from Cons.prems(3) m'
        have "led_previous_ids st ! fst m' = -1 \<or> led_current_ids st ! snd m' \<noteq> -1" by simp
        ultimately show ?thesis using sn by simp
      qed
    qed
    have p4: "-1 \<le> led_track_id ?st1" using Cons.prems(4) by simp
    from Cons.IH[OF d p2 p3 p4] s show ?thesis by simp
  qed
qed

lemma assign_new_ids_abort_unchanged:
  assumes l: "assign_new_ids (candidates_new_tracks adm)
       \<lparr>led_current_ids = adm_track_ids adm, led_previous_ids = trackIds prev,
        led_track_id = c, led_track_lengths = adm_track_lengths adm\<rparr> = Inl (e, led)"
    and a: "admission cfg cam cur prev lens ms = Inr adm"
    and d: "distinct (map fst ms)"
    and inv: "list_all (\<lambda>t. -1 \<le> t) (trackIds prev)"
    and cnt: "-1 \<le> c"
  shows "led = \<lparr>led_current_ids = adm_track_ids adm, led_previous_ids = trackIds prev,
        led_track_id = c, led_track_lengths = adm_track_lengths adm\<rparr>"
proof -
  let ?st = "\<lparr>led_current_ids = adm_track_ids adm, led_previous_ids = trackIds prev,
        led_track_id = c, led_track_lengths = adm_track_lengths adm\<rparr>"
  let ?cont = "filter (\<lambda>m. 0 \<le> trackIds prev ! fst m) ms"
  from admission_candidates[OF a] obtain new where
    acc: "candidates_new_tracks adm = ?cont @ new" and
    new: "\<forall>m\<in>set new. m \<in> set ms \<and> adm_track_ids adm ! snd m < 0" by blast
  from admission_result[OF a] have
    a1: "length (adm_track_ids adm) = length (keypointMeasurements cur)" and
    a5: "\<forall>m\<in>set ms. fst m < length (trackIds prev) \<and> snd m < length (keypointMeasurements cur)"
    by blast+
  have c: "\<forall>m\<in>set ?cont. led_previous_ids ?st ! fst m \<noteq> -1
                         \<and> fst m < length (led_previous_ids ?st)"
    using a5 by auto
  note split = assign_new_ids_continued[OF c, of new]
  show ?thesis
  proof (cases "\<exists>m\<in>set ?cont. led_current_ids ?st ! snd m = -1")
    case True
    with split l acc show ?thesis by simp
  next
    case False
    have p1: "\<forall>m\<in>set new. \<forall>m'\<in>set new. fst m = fst m' \<longrightarrow> m = m'"
    proof (intro ballI impI)
      fix m m' assume "m \<in> set new" "m' \<in> set new" "fst m = fst m'"
      with new have "m \<in> set ms" "m' \<in> set ms" by simp_all
      with d \<open>fst m = fst m'\<close> show "m = m'" by (meson distinct_map inj_onD)
    qed
    have p2: "\<forall>m\<in>set new. fst m < length (led_previous_ids ?st)
                       \<and> snd m < length (led_current_ids ?st)"
      using new a5 a1 by simp
    have p3: "\<forall>m\<in>set new. led_previous_ids ?st ! fst m = -1 \<or> led_current_ids ?st ! snd m \<noteq> -1"
    proof
      fix m assume m: "m \<in> set new"
      with new have ms: "m \<in> set ms" by simp
      with a5 have "fst m < length (trackIds prev)" by simp
      with inv have ge: "-1 \<le> trackIds prev ! fst m" by (simp add: list_all_length)
      show "led_previous_ids ?st ! fst m = -1 \<or> led_current_ids ?st ! snd m \<noteq> -1"
      proof (cases "0 \<le> trackIds prev ! fst m")
        case True
        with ms have "m \<in> set ?cont" by simp
        with False show ?thesis by blast
      next
        case False
        with ge show ?thesis by simp
      qed
    qed
    have p4: "-1 \<le> led_track_id ?st" using cnt by simp
    from assign_new_ids_new_returns[OF p1 p2 p3 p4] obtain st' where
      r: "assign_new_ids new ?st = Inr st'" by blast
    have e1: "assign_new_ids (?cont @ new) ?st = assign_new_ids new ?st"
      unfolding split using False by (rule if_not_P)
    have "assign_new_ids new ?st = Inl (e, led)" using l unfolding acc e1 .
    with r show ?thesis by simp
  qed
qed

lemma addFrame_abort_unchanged:
  assumes ab: "addFrame cfg trk cur C = Inl (e, w)"
    and inv: "\<forall>prev. previous_frame_ptr trk = Some prev
                \<longrightarrow> list_all (\<lambda>t. -1 \<le> t) (trackIds prev)"
    and cnt: "-1 \<le> current_track_id trk"
  shows "w = \<lparr>world_tracker = trk, world_current = cur,
              world_previous = previous_frame_ptr trk\<rparr>"
proof (cases "hasKeypointMeasurements cur")
  case False
  with ab show ?thesis by (simp add: addFrame_def)
next
  case True
  show ?thesis
  proof (cases "previous_frame_ptr trk")
    case None
    with ab True show ?thesis by (simp add: addFrame_def)
  next
    case (Some prev)
    show ?thesis
    proof (cases "length (keypointMeasurements cur) = 0")
      case z: True
      with ab True Some show ?thesis by (simp add: addFrame_def)
    next
      case False
      with ab True Some have t: "track cfg trk cur prev C = Inl (e, w)"
        by (simp add: addFrame_def)
      let ?w0 = "\<lparr>world_tracker = trk, world_current = cur, world_previous = Some prev\<rparr>"
      show ?thesis
      proof (cases "matchFeatures (camera trk) C cur prev")
        case (Inl e1)
        with t have "w = ?w0" by (simp add: track_def Let_def split: if_splits)
        with Some show ?thesis by simp
      next
        case (Inr ms)
        show ?thesis
        proof (cases "admission cfg (camera trk) cur prev (previous_track_lengths trk) ms")
          case (Inl e2)
          with t Inr have "w = ?w0" by (simp add: track_def Let_def split: if_splits)
          with Some show ?thesis by simp
        next
          case adm: (Inr adm)
          let ?st = "\<lparr>led_current_ids = adm_track_ids adm, led_previous_ids = trackIds prev,
                led_track_id = current_track_id trk, led_track_lengths = adm_track_lengths adm\<rparr>"
          show ?thesis
          proof (cases "assign_new_ids (candidates_new_tracks adm) ?st")
            case (Inr led)
            with t \<open>matchFeatures (camera trk) C cur prev = Inr ms\<close> adm
            have "w = ?w0" by (simp add: track_def Let_def split: if_splits)
            with Some show ?thesis by simp
          next
            case (Inl el)
            obtain e3 led where el: "el = (e3, led)" by (cases el)
            from inv Some have i: "list_all (\<lambda>t. -1 \<le> t) (trackIds prev)" by simp
            from assign_new_ids_abort_unchanged[OF Inl[unfolded el] adm
                matchFeatures_matches(1)[OF \<open>matchFeatures (camera trk) C cur prev = Inr ms\<close>] i cnt]
            have led: "led = ?st" .
            from t \<open>matchFeatures (camera trk) C cur prev = Inr ms\<close> adm Inl el
            have "w = ?w0 \<or> w = \<lparr>world_tracker = trk\<lparr>current_track_id := led_track_id led,
                        previous_frame_ptr := Some (prev\<lparr>trackIds := led_previous_ids led\<rparr>)\<rparr>,
                      world_current = cur,
                      world_previous = Some (prev\<lparr>trackIds := led_previous_ids led\<rparr>)\<rparr>"
              by (simp add: track_def Let_def split: if_splits)
            then show ?thesis using Some by (auto simp: led)
          qed
        qed
      qed
    qed
  qed
qed

end
